theory Spec2Isabelle
  imports Complex_Main "HOL-Library.Multiset" "HOL-Library.Log_Nat"
begin

section \<open>Numbers\<close>

text \<open>
  The dashboard computes with JavaScript numbers, which are IEEE doubles. A number of
  the model is a rational or one of the three special values. There is a single zero,
  read as \<open>+0\<close> where the sign of a zero divisor would matter.
\<close>

datatype number = Fin rat | PosInf | NegInf | NaN

text \<open>
  The result of an arithmetic operation is the exact result rounded to a double. From
  \<open>2^53\<close> on, where every double is an integer, \<open>to_double\<close> rounds to the nearest
  double, to the even significand on a tie, and goes to an infinity when the rounded
  value leaves the range of the doubles (beyond \<open>(2^53 - 1) * 2^971\<close>). Below
  \<open>2^53\<close> the value is kept as it is: integers are exact there, and a fraction stands
  for the double next to it.
\<close>

definition to_double :: "rat \<Rightarrow> number" where
  "to_double x =
     (if \<bar>x\<bar> \<le> 2 ^ 53 then Fin x
      else
        let e = nat (bitlen \<lfloor>\<bar>x\<bar>\<rfloor> - 53);
            m = \<bar>x\<bar> / 2 ^ e;
            f = \<lfloor>m\<rfloor>;
            k = (if m - of_int f < 1 / 2 then f
                 else if 1 / 2 < m - of_int f then f + 1
                 else if even f then f else f + 1)
        in if 971 < e \<or> (e = 971 \<and> k = 2 ^ 53)
           then (if 0 < x then PosInf else NegInf)
           else Fin (sgn x * of_int k * 2 ^ e))"

fun js_neg :: "number \<Rightarrow> number" where
  "js_neg (Fin a) = Fin (- a)"
| "js_neg PosInf = NegInf"
| "js_neg NegInf = PosInf"
| "js_neg NaN = NaN"

fun js_add :: "number \<Rightarrow> number \<Rightarrow> number" where
  "js_add NaN b = NaN"
| "js_add a NaN = NaN"
| "js_add PosInf NegInf = NaN"
| "js_add NegInf PosInf = NaN"
| "js_add PosInf b = PosInf"
| "js_add a PosInf = PosInf"
| "js_add NegInf b = NegInf"
| "js_add a NegInf = NegInf"
| "js_add (Fin a) (Fin b) = to_double (a + b)"

definition js_sub :: "number \<Rightarrow> number \<Rightarrow> number" where
  "js_sub a b = js_add a (js_neg b)"

fun js_div :: "number \<Rightarrow> number \<Rightarrow> number" where
  "js_div NaN b = NaN"
| "js_div a NaN = NaN"
| "js_div (Fin a) (Fin b) =
     (if b = 0 then (if a = 0 then NaN else if 0 < a then PosInf else NegInf)
      else to_double (a / b))"
| "js_div (Fin a) b = Fin 0"
| "js_div PosInf (Fin b) = (if b < 0 then NegInf else PosInf)"
| "js_div NegInf (Fin b) = (if b < 0 then PosInf else NegInf)"
| "js_div a b = NaN"

text \<open>\<open>Math.abs\<close>.\<close>

fun js_abs :: "number \<Rightarrow> number" where
  "js_abs (Fin a) = Fin \<bar>a\<bar>"
| "js_abs PosInf = PosInf"
| "js_abs NegInf = PosInf"
| "js_abs NaN = NaN"

text \<open>The comparisons \<open>a >= b\<close> and \<open>a < b\<close>: both are false as soon as one side is \<open>NaN\<close>.\<close>

fun js_ge :: "number \<Rightarrow> number \<Rightarrow> bool" where
  "js_ge NaN b = False"
| "js_ge a NaN = False"
| "js_ge PosInf b = True"
| "js_ge a NegInf = True"
| "js_ge (Fin a) (Fin b) = (b \<le> a)"
| "js_ge a b = False"

fun js_lt :: "number \<Rightarrow> number \<Rightarrow> bool" where
  "js_lt NaN b = False"
| "js_lt a NaN = False"
| "js_lt (Fin a) (Fin b) = (a < b)"
| "js_lt PosInf b = False"
| "js_lt a NegInf = False"
| "js_lt a b = True"

text \<open>\<open>isNaN\<close>, and the idiom \<open>v || 0\<close>, which replaces the falsy numbers \<open>NaN\<close> and \<open>0\<close> by \<open>0\<close>.\<close>

fun isNaN :: "number \<Rightarrow> bool" where
  "isNaN NaN = True"
| "isNaN a = False"

fun or_zero :: "number \<Rightarrow> number" where
  "or_zero NaN = Fin 0"
| "or_zero a = a"

text \<open>
  \<open>parseFloat(v.toFixed(d))\<close>: \<open>toFixed\<close> prints the decimal with \<open>d\<close> fraction digits
  nearest to \<open>v\<close>, the larger one in absolute value on a tie; from \<open>10^21\<close> on, and for the
  special values, it prints the number itself, and \<open>parseFloat\<close> reads the text back.
  The decimal stands for the double next to it. Where the exact value of the model is a
  tie and the double of the program lies just beside it, the last digit can differ.
\<close>

fun parseFloat_toFixed :: "nat \<Rightarrow> number \<Rightarrow> number" where
  "parseFloat_toFixed d (Fin r) =
     (if 10 ^ 21 \<le> \<bar>r\<bar> then Fin r
      else Fin (sgn r * of_int \<lfloor>\<bar>r\<bar> * 10 ^ d + 1 / 2\<rfloor> / 10 ^ d))"
| "parseFloat_toFixed d a = a"

section \<open>Sorting with a comparator\<close>

text \<open>
  \<open>Array.prototype.sort(cmp)\<close> is stable; a comparator result that is \<open>NaN\<close> counts as
  \<open>+0\<close>. The model is the stable insertion sort: an element stays in front of the first
  element it does not have to follow. For a consistent comparator every stable sort
  returns this list; for an inconsistent one (values that are \<open>NaN\<close> among numbers) the
  order depends on the engine, and only the fact that the result is a permutation is
  common to all of them.
\<close>

fun cmp_le0 :: "number \<Rightarrow> bool" where
  "cmp_le0 (Fin r) = (r \<le> 0)"
| "cmp_le0 NegInf = True"
| "cmp_le0 PosInf = False"
| "cmp_le0 NaN = True"

fun js_insort :: "('a \<Rightarrow> 'a \<Rightarrow> number) \<Rightarrow> 'a \<Rightarrow> 'a list \<Rightarrow> 'a list" where
  "js_insort cmp x [] = [x]"
| "js_insort cmp x (y # ys) =
     (if cmp_le0 (cmp x y) then x # y # ys else y # js_insort cmp x ys)"

definition js_sort :: "('a \<Rightarrow> 'a \<Rightarrow> number) \<Rightarrow> 'a list \<Rightarrow> 'a list" where
  "js_sort cmp xs = foldr (js_insort cmp) xs []"

section \<open>Spearman rank correlation\<close>

text \<open>
  The inner function \<open>rank\<close> of \<open>spearmanCorrelation\<close>; \<open>n\<close> is the length of \<open>x\<close> that the
  closure captures, and \<open>rank\<close> is only called on arrays of that length. The array
  \<open>new Array(n)\<close> starts with empty slots, written \<open>0\<close> here; the loop fills every slot
  with a rank from \<open>1\<close> to \<open>n\<close> (lemma \<open>rank_perm\<close>).
\<close>

definition rank :: "nat \<Rightarrow> number list \<Rightarrow> nat list" where
  "rank n arr =
     (let sorted_arr = js_sort (\<lambda>a b. js_sub (fst a) (fst b)) (zip arr [0..<length arr])
      in fold (\<lambda>i ranks. ranks[snd (sorted_arr ! i) := i + 1]) [0..<n] (replicate n 0))"

text \<open>
  The ranks, the sum of the squared differences and the two products of the formula are
  integers. The model computes them exactly; the doubles of the program do the same as
  long as they stay below \<open>2^53\<close>, which \<open>2 * n * (n * n - 1) < 2^53\<close> ensures, that is
  \<open>n\<close> up to \<open>165000\<close>. For longer arrays the program rounds the sum, and its result
  can differ from the model's in the last digits.
\<close>

definition dSquaredSum :: "nat \<Rightarrow> nat list \<Rightarrow> nat list \<Rightarrow> int" where
  "dSquaredSum n rankX rankY =
     fold (\<lambda>i s. s + (int (rankX ! i) - int (rankY ! i)) ^ 2) [0..<n] 0"

definition spearmanCorrelation :: "number list \<Rightarrow> number list \<Rightarrow> number" where
  "spearmanCorrelation x y =
     (let n = length x in
      if n \<noteq> length y \<or> n = 0 then Fin 0
      else
        let rankX = rank n x;
            rankY = rank n y;
            d = dSquaredSum n rankX rankY
        in js_sub (Fin 1)
             (js_div (Fin (of_int (6 * d))) (Fin (of_nat n * (of_nat n * of_nat n - 1)))))"

section \<open>The correlation matrix\<close>

record DataItem =
  id_num :: nat
  intensity :: number
  dependency :: number
  competence :: number
  alienation :: number
  usageGroup :: string

record CorrelationItem =
  var1 :: string
  var2 :: string
  label1 :: string
  label2 :: string
  correlation :: number
  significant :: bool

definition variables :: "string list" where
  "variables = [''intensity'', ''dependency'', ''competence'', ''alienation'']"

definition labels :: "string list" where
  "labels = [''Intensitas Digital'', ''Ketergantungan Psikologis'',
             ''Kompetensi Tatap Muka'', ''Alienasi Sosial'']"

text \<open>The property access \<open>d[name]\<close> for the four names of \<open>variables\<close>.\<close>

definition get_prop :: "DataItem \<Rightarrow> string \<Rightarrow> number" where
  "get_prop d name =
     (if name = ''intensity'' then intensity d
      else if name = ''dependency'' then dependency d
      else if name = ''competence'' then competence d
      else alienation d)"

text \<open>The array \<open>data.map(d => d[name])\<close>.\<close>

definition column :: "DataItem list \<Rightarrow> string \<Rightarrow> number list" where
  "column data name = map (\<lambda>d. get_prop d name) data"

text \<open>The body of the inner loop: the entry pushed for the pair \<open>(i, j)\<close>.\<close>

definition matrix_item :: "DataItem list \<Rightarrow> nat \<Rightarrow> nat \<Rightarrow> CorrelationItem" where
  "matrix_item data i j =
     (let x = column data (variables ! i);
          y = column data (variables ! j);
          corr = spearmanCorrelation x y
      in \<lparr> var1 = variables ! i, var2 = variables ! j,
           label1 = labels ! i, label2 = labels ! j,
           correlation = parseFloat_toFixed 3 corr,
           significant = js_ge (js_abs corr) (Fin (1 / 4)) \<rparr>)"

text \<open>The two nested loops, pushing the entries in enumeration order.\<close>

definition matrix_loop :: "DataItem list \<Rightarrow> CorrelationItem list" where
  "matrix_loop data =
     concat (map (\<lambda>i. map (\<lambda>j. matrix_item data i j) [i + 1..<length variables])
               [0..<length variables])"

definition calculateCorrelationMatrix :: "DataItem list \<Rightarrow> CorrelationItem list" where
  "calculateCorrelationMatrix data =
     js_sort (\<lambda>a b. js_sub (js_abs (correlation b)) (js_abs (correlation a)))
       (matrix_loop data)"

text \<open>The guarded call in \<open>ResearchDashboard\<close>.\<close>

definition correlations :: "DataItem list \<Rightarrow> CorrelationItem list" where
  "correlations data = (if length data > 0 then calculateCorrelationMatrix data else [])"

section \<open>Parsing the survey file\<close>

text \<open>
  Text is a list of characters with codes below 256. The white space that \<open>trim\<close> and
  \<open>parseInt\<close> skip is, in that range, tab, line feed, vertical tab, form feed, carriage
  return, space and the no-break space.
\<close>

definition is_space :: "char \<Rightarrow> bool" where
  "is_space c = (of_char c \<in> {9, 10, 11, 12, 13, 32, 160 :: nat})"

definition trim :: "string \<Rightarrow> string" where
  "trim s = rev (dropWhile is_space (rev (dropWhile is_space s)))"

text \<open>
  \<open>s.split(sep)\<close> for a one-character separator. The result is never empty, so the last
  case of the inner \<open>case\<close> is never taken.
\<close>

fun split_on :: "char \<Rightarrow> string \<Rightarrow> string list" where
  "split_on sep [] = [[]]"
| "split_on sep (c # cs) =
     (if c = sep then [] # split_on sep cs
      else (case split_on sep cs of f # fs \<Rightarrow> (c # f) # fs | [] \<Rightarrow> [[c]]))"

text \<open>
  \<open>line.split(/,(?=(?:(?:[^"]*"){2})*[^"]*$)/)\<close>: a comma separates two fields when an
  even number of double quotes follows it up to the end of the line.
\<close>

fun split_fields :: "string \<Rightarrow> string list" where
  "split_fields [] = [[]]"
| "split_fields (c # cs) =
     (if c = CHR '','' \<and> even (count_list cs (CHR 0x22)) then [] # split_fields cs
      else (case split_fields cs of f # fs \<Rightarrow> (c # f) # fs | [] \<Rightarrow> [[c]]))"

text \<open>
  \<open>parseInt(s)\<close> without a radix: skip leading white space, read a sign, switch to
  radix 16 after \<open>0x\<close> or \<open>0X\<close>, and read the longest run of digits; no digit gives
  \<open>NaN\<close>. The result is the double of the integer read, so a long run of digits is
  rounded, and one of more than 309 decimal digits gives an infinity. (For more than 20
  decimal digits an engine may round the digits after the 20th differently.)
\<close>

definition digit_value :: "char \<Rightarrow> nat option" where
  "digit_value c =
     (let k = (of_char c :: nat) in
      if 48 \<le> k \<and> k \<le> 57 then Some (k - 48)
      else if 97 \<le> k \<and> k \<le> 102 then Some (k - 87)
      else if 65 \<le> k \<and> k \<le> 70 then Some (k - 55)
      else None)"

definition radix_digit :: "nat \<Rightarrow> char \<Rightarrow> nat option" where
  "radix_digit R c =
     (case digit_value c of Some v \<Rightarrow> if v < R then Some v else None | None \<Rightarrow> None)"

fun parse_digits :: "nat \<Rightarrow> int option \<Rightarrow> string \<Rightarrow> int option" where
  "parse_digits R acc [] = acc"
| "parse_digits R acc (c # cs) =
     (case radix_digit R c of
        None \<Rightarrow> acc
      | Some v \<Rightarrow>
          parse_digits R
            (Some (case acc of None \<Rightarrow> int v | Some a \<Rightarrow> a * int R + int v)) cs)"

definition parseInt :: "string \<Rightarrow> number" where
  "parseInt s =
     (let S = dropWhile is_space s;
          sign = (if take 1 S = ''-'' then - 1 else 1);
          S1 = (if take 1 S = ''+'' \<or> take 1 S = ''-'' then drop 1 S else S);
          R = (if take 2 S1 = ''0x'' \<or> take 2 S1 = ''0X'' then 16 else 10);
          Z = (if take 2 S1 = ''0x'' \<or> take 2 S1 = ''0X'' then drop 2 S1 else S1)
      in case parse_digits R None Z of
           None \<Rightarrow> NaN
         | Some mathInt \<Rightarrow> to_double (of_int (sign * mathInt)))"

text \<open>
  \<open>getVal(idx)\<close>, that is \<open>parseInt(values[idx]) || 0\<close>. Reading past the end of
  \<open>values\<close> gives \<open>undefined\<close>, which \<open>parseInt\<close> turns into the text \<open>undefined\<close>.
\<close>

definition getVal :: "string list \<Rightarrow> nat \<Rightarrow> number" where
  "getVal values idx =
     or_zero (parseInt (if idx < length values then values ! idx else ''undefined''))"

text \<open>The function mapped over the data lines.\<close>

definition parse_line :: "nat \<Rightarrow> string \<Rightarrow> DataItem" where
  "parse_line index line =
     (let values = split_fields line;
          intensityScore =
            js_div (js_add (js_add (js_add (js_add (getVal values 2) (getVal values 4))
              (getVal values 5)) (getVal values 18)) (getVal values 19)) (Fin 5);
          dependencyScore =
            js_div (js_add (js_add (js_add (js_add (getVal values 3) (getVal values 6))
              (getVal values 20)) (getVal values 21)) (getVal values 22)) (Fin 5);
          competenceScore =
            js_div (js_add (js_add (js_add (getVal values 7) (getVal values 8))
              (getVal values 9)) (getVal values 10)) (Fin 4);
          alienationScore =
            js_div (js_add (js_add (js_add (js_add (getVal values 13) (getVal values 14))
              (getVal values 15)) (getVal values 16)) (getVal values 17)) (Fin 5);
          usage =
            (if js_ge (getVal values 2) (Fin 4) then ''Heavy User (>6 Jam)''
             else ''Moderate/Light'')
      in \<lparr> id_num = index + 1,
           intensity = parseFloat_toFixed 2 intensityScore,
           dependency = parseFloat_toFixed 2 dependencyScore,
           competence = parseFloat_toFixed 2 competenceScore,
           alienation = parseFloat_toFixed 2 alienationScore,
           usageGroup = usage \<rparr>)"

text \<open>The data lines: everything after the header line of the trimmed text.\<close>

definition data_lines :: "string \<Rightarrow> string list" where
  "data_lines csvText = tl (split_on (CHR 0x0A) (trim csvText))"

definition parseCSVData :: "string \<Rightarrow> DataItem list" where
  "parseCSVData csvText =
     (let parsedData =
            map (\<lambda>(index, line). parse_line index line)
              (zip [0..<length (data_lines csvText)] (data_lines csvText))
      in filter (\<lambda>d. \<not> isNaN (intensity d)) parsedData)"

text \<open>
  The file \<open>Dashboard.tsx\<close> holds a second copy of \<open>parseCSVData\<close>, whose records carry
  one more field, \<open>boldness\<close>, the value of column 11.
\<close>

record DataItem_boldness = DataItem +
  boldness :: number

definition parse_line_boldness :: "nat \<Rightarrow> string \<Rightarrow> DataItem_boldness" where
  "parse_line_boldness index line =
     (let values = split_fields line;
          intensityScore =
            js_div (js_add (js_add (js_add (js_add (getVal values 2) (getVal values 4))
              (getVal values 5)) (getVal values 18)) (getVal values 19)) (Fin 5);
          dependencyScore =
            js_div (js_add (js_add (js_add (js_add (getVal values 3) (getVal values 6))
              (getVal values 20)) (getVal values 21)) (getVal values 22)) (Fin 5);
          competenceScore =
            js_div (js_add (js_add (js_add (getVal values 7) (getVal values 8))
              (getVal values 9)) (getVal values 10)) (Fin 4);
          alienationScore =
            js_div (js_add (js_add (js_add (js_add (getVal values 13) (getVal values 14))
              (getVal values 15)) (getVal values 16)) (getVal values 17)) (Fin 5);
          boldnessScore = getVal values 11;
          usage =
            (if js_ge (getVal values 2) (Fin 4) then ''Heavy User (>6 Jam)''
             else ''Moderate/Light'')
      in \<lparr> id_num = index + 1,
           intensity = parseFloat_toFixed 2 intensityScore,
           dependency = parseFloat_toFixed 2 dependencyScore,
           competence = parseFloat_toFixed 2 competenceScore,
           alienation = parseFloat_toFixed 2 alienationScore,
           usageGroup = usage,
           boldness = boldnessScore \<rparr>)"

definition parseCSVData_boldness :: "string \<Rightarrow> DataItem_boldness list" where
  "parseCSVData_boldness csvText =
     (let parsedData =
            map (\<lambda>(index, line). parse_line_boldness index line)
              (zip [0..<length (data_lines csvText)] (data_lines csvText))
      in filter (\<lambda>d. \<not> isNaN (intensity d)) parsedData)"

section \<open>Example data\<close>

text \<open>Three respondents.\<close>

definition survey3 :: "DataItem list" where
  "survey3 =
     [\<lparr> id_num = 1, intensity = Fin 1, dependency = Fin 2, competence = Fin 3,
         alienation = Fin 1, usageGroup = ''Moderate/Light'' \<rparr>,
      \<lparr> id_num = 2, intensity = Fin 2, dependency = Fin 1, competence = Fin 2,
         alienation = Fin 3, usageGroup = ''Moderate/Light'' \<rparr>,
      \<lparr> id_num = 3, intensity = Fin 3, dependency = Fin 3, competence = Fin 1,
         alienation = Fin 2, usageGroup = ''Moderate/Light'' \<rparr>]"

text \<open>
  Twenty respondents with pairwise different scores in every column; the ranks of
  \<open>dependency\<close> are the second list, and its squared rank distance to the other three
  columns is \<open>998\<close>.
\<close>

definition survey20 :: "DataItem list" where
  "survey20 =
     map (\<lambda>(i, p). \<lparr> id_num = i, intensity = Fin (of_nat (i + 4) / 5),
                       dependency = Fin (of_nat (p + 4) / 5),
                       competence = Fin (of_nat i / 4),
                       alienation = Fin (of_nat (i + 4) / 5),
                       usageGroup = ''Moderate/Light'' \<rparr>)
       (zip [1..<21] [3, 6, 18, 11, 10, 1, 17, 2, 8, 7, 20, 14, 15, 9, 16, 4, 13, 5, 19, 12])"

text \<open>
  A survey file with a header and three data lines of 23 columns. In the first line the
  columns 2, 4, 5, 18 and 19 are \<open>5\<close>; in the second column 2 is \<open>3\<close>, in the third it
  is \<open>4\<close>; every other column is \<open>1\<close>.
\<close>

definition survey_csv :: string where
  "survey_csv =
     ''h'' @ CHR 0x0A #
     ''1,1,5,1,5,5,1,1,1,1,1,1,1,1,1,1,1,1,5,5,1,1,1'' @ CHR 0x0A #
     ''1,1,3,1,1,1,1,1,1,1,1,1,1,1,1,1,1,1,1,1,1,1,1'' @ CHR 0x0A #
     ''1,1,4,1,1,1,1,1,1,1,1,1,1,1,1,1,1,1,1,1,1,1,1''"

text \<open>
  A survey file whose first data line has a cell of 310 nines in column 2 and the
  negative of it in column 4, followed by the line \<open>a,b,c\<close>, a line of three spaces and
  the line \<open>1,1,3\<close>.
\<close>

definition overflow_csv :: string where
  "overflow_csv =
     ''h'' @ CHR 0x0A #
     ''1,1,'' @ replicate 310 (CHR ''9'') @ '',1,-'' @ replicate 310 (CHR ''9'') @ CHR 0x0A #
     ''a,b,c'' @ CHR 0x0A #
     ''   '' @ CHR 0x0A #
     ''1,1,3''"

section \<open>Properties of the numbers\<close>

lemma to_double_small [simp]: "\<bar>x\<bar> \<le> 2 ^ 53 \<Longrightarrow> to_double x = Fin x"
  by (simp add: to_double_def)

lemma to_double_not_NaN [simp]: "to_double x \<noteq> NaN"
  by (simp add: to_double_def Let_def)

lemma scale_le:
  assumes "2 ^ 53 < \<bar>x::rat\<bar>"
  shows "2 ^ nat (bitlen \<lfloor>\<bar>x\<bar>\<rfloor> - 53) \<le> \<bar>x\<bar>"
proof -
  let ?z = "\<lfloor>\<bar>x\<bar>\<rfloor>"
  have "(1::rat) \<le> 2 ^ 53" by simp
  then have "(1::rat) \<le> \<bar>x\<bar>" using assms by linarith
  then have z: "0 < ?z" by simp
  have "(2::int) ^ nat (bitlen ?z - 53) \<le> 2 ^ nat (bitlen ?z - 1)"
    by (intro power_increasing) simp_all
  also have "\<dots> \<le> ?z" using bitlen_bounds [OF z] by simp
  finally have "(of_int (2 ^ nat (bitlen ?z - 53)) :: rat) \<le> of_int ?z"
    by (simp only: of_int_le_iff)
  also have "\<dots> \<le> \<bar>x\<bar>" by simp
  finally show ?thesis by simp
qed

lemma to_double_big:
  assumes "\<not> \<bar>x\<bar> \<le> 2 ^ 53"
  shows "\<exists>k e. 1 \<le> k \<and>
           to_double x = (if 971 < e \<or> (e = 971 \<and> k = 2 ^ 53)
                          then (if 0 < x then PosInf else NegInf)
                          else Fin (sgn x * of_int k * 2 ^ e))"
proof -
  from assms have big: "2 ^ 53 < \<bar>x\<bar>" by simp
  define e where "e = nat (bitlen \<lfloor>\<bar>x\<bar>\<rfloor> - 53)"
  define m where "m = \<bar>x\<bar> / 2 ^ e"
  define f where "f = \<lfloor>m\<rfloor>"
  define k where "k = (if m - of_int f < 1 / 2 then f
                 else if 1 / 2 < m - of_int f then f + 1
                 else if even f then f else f + 1)"
  have "(2::rat) ^ e \<le> \<bar>x\<bar>" unfolding e_def using big by (rule scale_le)
  then have "1 \<le> m" unfolding m_def by (simp add: le_divide_eq)
  then have "1 \<le> f" unfolding f_def by (simp add: le_floor_iff)
  then have k1: "1 \<le> k" unfolding k_def by (simp split: if_splits)
  have "to_double x = (if 971 < e \<or> (e = 971 \<and> k = 2 ^ 53)
           then (if 0 < x then PosInf else NegInf)
           else Fin (sgn x * of_int k * 2 ^ e))"
    unfolding to_double_def Let_def e_def [symmetric]
    unfolding m_def [symmetric]
    unfolding f_def [symmetric]
    unfolding k_def [symmetric]
    using assms by (simp only: if_False)
  with k1 show ?thesis by blast
qed

lemma to_double_sign [simp]: "cmp_le0 (to_double x) = (x \<le> 0)"
proof (cases "\<bar>x\<bar> \<le> 2 ^ 53")
  case True
  then show ?thesis by simp
next
  case False
  then have "x \<noteq> 0" by auto
  from to_double_big [OF False] obtain k e where k: "1 \<le> k"
    and eq: "to_double x = (if 971 < e \<or> (e = 971 \<and> k = 2 ^ 53)
                          then (if 0 < x then PosInf else NegInf)
                          else Fin (sgn x * of_int k * 2 ^ e))"
    by blast
  have pos: "0 < (of_int k :: rat) * 2 ^ e" using k by simp
  have "(sgn x * (of_int k * 2 ^ e) \<le> 0) = (x \<le> 0)"
  proof (cases "0 < x")
    case True
    then show ?thesis using pos by simp
  next
    case False
    with \<open>x \<noteq> 0\<close> have "x < 0" by simp
    then show ?thesis using pos by simp
  qed
  then have fin: "cmp_le0 (Fin (sgn x * of_int k * 2 ^ e)) = (x \<le> 0)"
    by (simp add: mult.assoc)
  show ?thesis
  proof (cases "971 < e \<or> (e = 971 \<and> k = 2 ^ 53)")
    case True
    then have "to_double x = (if 0 < x then PosInf else NegInf)"
      unfolding eq by (simp only: if_True)
    then show ?thesis using \<open>x \<noteq> 0\<close> by simp
  next
    case False
    then have "to_double x = Fin (sgn x * of_int k * 2 ^ e)"
      unfolding eq by (simp only: if_False)
    then show ?thesis using fin by simp
  qed
qed

lemma js_sub_Fin: "js_sub (Fin a) (Fin b) = to_double (a - b)"
  by (simp add: js_sub_def)

section \<open>Properties of the sort and of the ranks\<close>

text \<open>The sort returns a permutation of its argument, whatever the comparator.\<close>

lemma mset_js_insort: "mset (js_insort cmp x ys) = add_mset x (mset ys)"
  by (induction ys) auto

lemma mset_js_sort: "mset (js_sort cmp xs) = mset xs"
  unfolding js_sort_def by (induction xs) (auto simp: mset_js_insort)

lemma length_js_sort: "length (js_sort cmp xs) = length xs"
  by (metis mset_js_sort size_mset)

lemma set_js_sort: "set (js_sort cmp xs) = set xs"
  by (metis mset_js_sort set_mset_mset)

lemma fill_ranks:
  assumes "distinct (map snd s)" and "\<forall>i<length s. snd (s ! i) < n" and "m \<le> length s"
  shows "length (fold (\<lambda>i ranks. ranks[snd (s ! i) := i + 1]) [0..<m] (replicate n 0)) = n \<and>
         (\<forall>i<m. fold (\<lambda>i ranks. ranks[snd (s ! i) := i + 1]) [0..<m] (replicate n 0) ! snd (s ! i) = i + 1)"
  using assms(3)
proof (induction m)
  case 0
  then show ?case by simp
next
  case (Suc m)
  let ?r = "fold (\<lambda>i ranks. ranks[snd (s ! i) := i + 1]) [0..<m] (replicate n 0)"
  from Suc have IH: "length ?r = n" "\<forall>i<m. ?r ! snd (s ! i) = i + 1" and m: "m < length s"
    by auto
  have step: "fold (\<lambda>i ranks. ranks[snd (s ! i) := i + 1]) [0..<Suc m] (replicate n 0)
                = ?r[snd (s ! m) := m + 1]"
    by simp
  have ne: "snd (s ! i) \<noteq> snd (s ! m)" if "i < m" for i
  proof -
    have "map snd s ! i \<noteq> map snd s ! m"
      using nth_eq_iff_index_eq [OF assms(1), of i m] that m by simp
    then show ?thesis using that m by simp
  qed
  have lt: "snd (s ! m) < n" using assms(2) m by simp
  have "?r[snd (s ! m) := m + 1] ! snd (s ! i) = i + 1" if "i < Suc m" for i
  proof (cases "i = m")
    case True
    then show ?thesis using lt IH(1) by simp
  next
    case False
    with that have "i < m" by simp
    then show ?thesis using ne [of i] IH(2) by (simp add: nth_list_update_neq)
  qed
  then show ?case
    unfolding step using IH(1) by simp
qed

lemma sorted_pairs:
  fixes arr :: "number list"
  defines "s \<equiv> js_sort (\<lambda>a b. js_sub (fst a) (fst b)) (zip arr [0..<length arr])"
  shows "mset s = mset (zip arr [0..<length arr])"
    and "length s = length arr"
    and "mset (map snd s) = mset [0..<length arr]"
    and "mset (map fst s) = mset arr"
    and "distinct (map snd s)"
    and "\<forall>i<length s. snd (s ! i) < length arr \<and> fst (s ! i) = arr ! snd (s ! i)"
proof -
  show 1: "mset s = mset (zip arr [0..<length arr])" by (simp add: s_def mset_js_sort)
  show 2: "length s = length arr" by (simp add: s_def length_js_sort)
  have "mset (map snd s) = image_mset snd (mset (zip arr [0..<length arr]))"
    using 1 by (metis mset_map)
  then show 3: "mset (map snd s) = mset [0..<length arr]"
    by (metis mset_map map_snd_zip length_upt diff_zero)
  have "mset (map fst s) = image_mset fst (mset (zip arr [0..<length arr]))"
    using 1 by (metis mset_map)
  then show "mset (map fst s) = mset arr"
    by (metis mset_map map_fst_zip length_upt diff_zero)
  show "distinct (map snd s)"
    using 3 by (metis distinct_upt mset_eq_imp_distinct_iff)
  have "set s = set (zip arr [0..<length arr])" by (simp add: s_def set_js_sort)
  then have "\<forall>p\<in>set s. snd p < length arr \<and> fst p = arr ! snd p"
    by (auto simp: set_zip)
  then show "\<forall>i<length s. snd (s ! i) < length arr \<and> fst (s ! i) = arr ! snd (s ! i)"
    by simp
qed

lemma rank_nth:
  fixes arr :: "number list"
  defines "s \<equiv> js_sort (\<lambda>a b. js_sub (fst a) (fst b)) (zip arr [0..<length arr])"
  shows "length (rank (length arr) arr) = length arr"
    and "\<forall>i<length arr. rank (length arr) arr ! snd (s ! i) = i + 1"
proof -
  have "length (rank (length arr) arr) = length arr \<and>
        (\<forall>i<length arr. rank (length arr) arr ! snd (s ! i) = i + 1)"
    unfolding rank_def Let_def s_def [symmetric]
    apply (rule fill_ranks)
    using sorted_pairs [of arr] by (auto simp: s_def)
  then show "length (rank (length arr) arr) = length arr"
    and "\<forall>i<length arr. rank (length arr) arr ! snd (s ! i) = i + 1" by auto
qed

lemma rank_perm: "mset (rank (length arr) arr) = mset (map Suc [0..<length arr])"
proof -
  let ?s = "js_sort (\<lambda>a b. js_sub (fst a) (fst b)) (zip arr [0..<length arr])"
  let ?r = "rank (length arr) arr"
  have len: "length ?s = length arr" by (rule sorted_pairs)
  have "map (\<lambda>k. ?r ! k) (map snd ?s) = map Suc [0..<length arr]"
    using rank_nth(2) [of arr] len by (intro nth_equalityI) auto
  then have "mset (map Suc [0..<length arr]) = image_mset (\<lambda>k. ?r ! k) (mset (map snd ?s))"
    by (metis mset_map)
  also have "\<dots> = image_mset (\<lambda>k. ?r ! k) (mset [0..<length arr])"
    by (simp only: sorted_pairs(3))
  also have "\<dots> = mset (map (\<lambda>k. ?r ! k) [0..<length ?r])"
    by (simp add: rank_nth(1))
  also have "\<dots> = mset ?r" by (simp only: map_nth)
  finally show ?thesis by simp
qed

subsection \<open>The sum of squared rank differences\<close>

lemma fold_add_sum_list:
  "fold (\<lambda>i s. s + f i) xs (a::int) = a + sum_list (map f xs)"
  by (induction xs arbitrary: a) simp_all

lemma dSquaredSum_sum_list:
  "dSquaredSum n p q = (\<Sum>i\<leftarrow>[0..<n]. (int (p ! i) - int (q ! i)) ^ 2)"
  unfolding dSquaredSum_def by (simp add: fold_add_sum_list)

lemma dSquaredSum_nonneg: "0 \<le> dSquaredSum n p q"
  unfolding dSquaredSum_sum_list by (rule sum_list_nonneg) auto

lemma sum_list_perm:
  fixes f :: "nat \<Rightarrow> int"
  assumes "mset p = mset q"
  shows "sum_list (map f p) = sum_list (map f q)"
proof -
  have "mset (map f p) = mset (map f q)" using assms by (metis mset_map)
  then show ?thesis by (metis sum_mset_sum_list)
qed

lemma sum_ranks: "2 * (\<Sum>k\<leftarrow>[0..<n]. int (Suc k)) = int n * (int n + 1)"
  by (induction n) (simp_all add: algebra_simps)

lemma sum_rank_squares:
  "6 * (\<Sum>k\<leftarrow>[0..<n]. (int (Suc k)) ^ 2) = int n * (int n + 1) * (2 * int n + 1)"
  by (induction n) (simp_all add: algebra_simps power2_eq_square)

lemma sum_list_nth:
  assumes "length p = n"
  shows "(\<Sum>i\<leftarrow>[0..<n]. f (p ! i)) = sum_list (map f p)"
proof -
  have "map f p = map f (map (\<lambda>i. p ! i) [0..<length p])"
    by (simp only: map_nth)
  also have "\<dots> = map (\<lambda>i. f (p ! i)) [0..<n]"
    using assms by (simp only: map_map comp_def)
  finally show ?thesis by simp
qed

lemma perm_sums:
  assumes "length p = n" and "mset p = mset (map Suc [0..<n])"
  shows "2 * (\<Sum>i\<leftarrow>[0..<n]. int (p ! i)) = int n * (int n + 1)"
    and "6 * (\<Sum>i\<leftarrow>[0..<n]. (int (p ! i)) ^ 2) = int n * (int n + 1) * (2 * int n + 1)"
proof -
  have "(\<Sum>i\<leftarrow>[0..<n]. int (p ! i)) = sum_list (map int p)"
    using assms(1) by (rule sum_list_nth)
  also have "\<dots> = sum_list (map int (map Suc [0..<n]))"
    using assms(2) by (rule sum_list_perm)
  finally show "2 * (\<Sum>i\<leftarrow>[0..<n]. int (p ! i)) = int n * (int n + 1)"
    using sum_ranks [of n] by (simp add: comp_def)
  have "(\<Sum>i\<leftarrow>[0..<n]. (int (p ! i)) ^ 2) = sum_list (map (\<lambda>k. (int k) ^ 2) p)"
    using assms(1) by (rule sum_list_nth)
  also have "\<dots> = sum_list (map (\<lambda>k. (int k) ^ 2) (map Suc [0..<n]))"
    using assms(2) by (rule sum_list_perm)
  finally show "6 * (\<Sum>i\<leftarrow>[0..<n]. (int (p ! i)) ^ 2) = int n * (int n + 1) * (2 * int n + 1)"
    using sum_rank_squares [of n] by (simp add: comp_def)
qed

lemma rank_arith:
  fixes n P1 P2 Q1 Q2 :: int
  assumes "2 * P1 = n * (n + 1)" and "6 * P2 = n * (n + 1) * (2 * n + 1)"
    and "2 * Q1 = n * (n + 1)" and "6 * Q2 = n * (n + 1) * (2 * n + 1)"
  shows "3 * (2 * P2 + 2 * Q2 - 2 * (n + 1) * P1 - 2 * (n + 1) * Q1 + n * (n + 1) ^ 2)
         = n * (n * n - 1)"
proof -
  have "2 * (3 * (2 * P2 + 2 * Q2 - 2 * (n + 1) * P1 - 2 * (n + 1) * Q1 + n * (n + 1) ^ 2))
        = 2 * (6 * P2) + 2 * (6 * Q2) - 6 * (n + 1) * (2 * P1) - 6 * (n + 1) * (2 * Q1)
          + 6 * (n * (n + 1) ^ 2)"
    by (simp add: algebra_simps)
  also have "\<dots> = 2 * (n * (n * n - 1))"
    unfolding assms by (simp add: power2_eq_square algebra_simps)
  finally show ?thesis by simp
qed

lemma sum_list_expand:
  fixes a b :: "nat \<Rightarrow> int"
  shows "(\<Sum>i\<leftarrow>xs. 2 * (a i) ^ 2 + 2 * (b i) ^ 2 - 2 * c * a i - 2 * c * b i + c ^ 2)
         = 2 * (\<Sum>i\<leftarrow>xs. (a i) ^ 2) + 2 * (\<Sum>i\<leftarrow>xs. (b i) ^ 2)
           - 2 * c * (\<Sum>i\<leftarrow>xs. a i) - 2 * c * (\<Sum>i\<leftarrow>xs. b i) + int (length xs) * c ^ 2"
  by (induction xs) (simp_all add: algebra_simps)

lemma dSquaredSum_complement:
  assumes "length p = n" and "mset p = mset (map Suc [0..<n])"
    and "length q = n" and "mset q = mset (map Suc [0..<n])"
  shows "3 * dSquaredSum n p q
           + 3 * (\<Sum>i\<leftarrow>[0..<n]. (int (p ! i) + int (q ! i) - (int n + 1)) ^ 2)
         = int n * (int n * int n - 1)"
proof -
  let ?c = "int n + 1"
  let ?P1 = "\<Sum>i\<leftarrow>[0..<n]. int (p ! i)" and ?P2 = "\<Sum>i\<leftarrow>[0..<n]. (int (p ! i)) ^ 2"
  let ?Q1 = "\<Sum>i\<leftarrow>[0..<n]. int (q ! i)" and ?Q2 = "\<Sum>i\<leftarrow>[0..<n]. (int (q ! i)) ^ 2"
  have pointwise: "(a - b) ^ 2 + (a + b - c) ^ 2 = 2 * a ^ 2 + 2 * b ^ 2 - 2 * c * a - 2 * c * b + c ^ 2"
    for a b c :: int
    by (simp add: power2_eq_square algebra_simps)
  have "dSquaredSum n p q + (\<Sum>i\<leftarrow>[0..<n]. (int (p ! i) + int (q ! i) - ?c) ^ 2)
        = (\<Sum>i\<leftarrow>[0..<n]. (int (p ! i) - int (q ! i)) ^ 2 + (int (p ! i) + int (q ! i) - ?c) ^ 2)"
    unfolding dSquaredSum_sum_list by (simp only: sum_list_addf)
  also have "\<dots> = (\<Sum>i\<leftarrow>[0..<n]. 2 * (int (p ! i)) ^ 2 + 2 * (int (q ! i)) ^ 2
                       - 2 * ?c * int (p ! i) - 2 * ?c * int (q ! i) + ?c ^ 2)"
    by (simp only: pointwise)
  also have "\<dots> = 2 * ?P2 + 2 * ?Q2 - 2 * ?c * ?P1 - 2 * ?c * ?Q1 + int n * ?c ^ 2"
    by (simp only: sum_list_expand length_upt diff_zero)
  finally have "3 * (dSquaredSum n p q + (\<Sum>i\<leftarrow>[0..<n]. (int (p ! i) + int (q ! i) - ?c) ^ 2))
        = int n * (int n * int n - 1)"
    using rank_arith [OF perm_sums [OF assms(1,2)] perm_sums [OF assms(3,4)]] by simp
  then show ?thesis by simp
qed

lemma dSquaredSum_upper:
  assumes "length p = n" and "mset p = mset (map Suc [0..<n])"
    and "length q = n" and "mset q = mset (map Suc [0..<n])"
  shows "3 * dSquaredSum n p q \<le> int n * (int n * int n - 1)"
proof -
  have "0 \<le> (\<Sum>i\<leftarrow>[0..<n]. (int (p ! i) + int (q ! i) - (int n + 1)) ^ 2)"
    by (rule sum_list_nonneg) auto
  then show ?thesis using dSquaredSum_complement [OF assms] by linarith
qed

subsection \<open>The coefficient\<close>

lemma ratio_bounds:
  fixes a b :: int
  assumes "0 \<le> a" and "a \<le> 2 * b" and "0 < b"
  shows "(0::rat) \<le> of_int a / of_int b" and "of_int a / of_int b \<le> (2::rat)"
proof -
  have a: "(0::rat) \<le> of_int a" using assms(1) by simp
  have b: "(0::rat) < of_int b" using assms(3) by simp
  show "(0::rat) \<le> of_int a / of_int b" using a b by (rule divide_nonneg_pos)
  have "(of_int a :: rat) \<le> of_int (2 * b)" using assms(2) by (simp only: of_int_le_iff)
  then have "(of_int a :: rat) \<le> 2 * of_int b" by simp
  then show "of_int a / of_int b \<le> (2::rat)" using b by (simp add: pos_divide_le_eq)
qed

text \<open>The quotient of the formula lies between \<open>0\<close> and \<open>2\<close>.\<close>

lemma spearman_quotient:
  assumes "length x = length y" and "2 \<le> length x"
  defines "q \<equiv> (of_int (6 * dSquaredSum (length x) (rank (length x) x) (rank (length x) y))
                    / (of_nat (length x) * (of_nat (length x) * of_nat (length x) - 1)) :: rat)"
  shows "0 \<le> q" and "q \<le> 2"
    and "(of_nat (length x) * (of_nat (length x) * of_nat (length x) - 1) :: rat) \<noteq> 0"
proof -
  let ?n = "length x"
  let ?d = "dSquaredSum ?n (rank ?n x) (rank ?n y)"
  let ?den = "int ?n * (int ?n * int ?n - 1)"
  have "1 < int ?n * int ?n"
    using assms(2) by (simp add: less_1_mult)
  moreover have "0 < int ?n" using assms(2) by linarith
  ultimately have den: "0 < ?den" by (intro mult_pos_pos) simp_all
  have lo: "0 \<le> ?d" by (rule dSquaredSum_nonneg)
  have "3 * ?d \<le> ?den"
    using dSquaredSum_upper [of "rank ?n x" ?n "rank ?n y"] rank_nth(1) [of x] rank_nth(1) [of y]
      rank_perm [of x] rank_perm [of y] assms(1) by simp
  then have hi: "6 * ?d \<le> 2 * ?den" by simp
  have eq: "(of_nat ?n * (of_nat ?n * of_nat ?n - 1) :: rat) = of_int ?den" by simp
  have "(0::rat) \<le> of_int (6 * ?d) / of_int ?den"
    and "of_int (6 * ?d) / of_int ?den \<le> (2::rat)"
    using ratio_bounds [of "6 * ?d" ?den] lo hi den by simp_all
  then show "0 \<le> q" and "q \<le> 2" unfolding q_def eq by simp_all
  have "(0::rat) < of_int ?den" using den by (simp only: of_int_0_less_iff)
  then have "(0::rat) \<noteq> of_int ?den" by (rule less_imp_neq)
  then have "(of_int ?den :: rat) \<noteq> 0" by (rule not_sym)
  then show "(of_nat ?n * (of_nat ?n * of_nat ?n - 1) :: rat) \<noteq> 0"
    unfolding eq .
qed

lemma spearman_formula:
  assumes "length x = length y" and "2 \<le> length x"
  shows "spearmanCorrelation x y =
           Fin (1 - of_int (6 * dSquaredSum (length x) (rank (length x) x) (rank (length x) y))
                    / (of_nat (length x) * (of_nat (length x) * of_nat (length x) - 1)))"
proof -
  define q :: rat where
    "q = of_int (6 * dSquaredSum (length x) (rank (length x) x) (rank (length x) y))
           / (of_nat (length x) * (of_nat (length x) * of_nat (length x) - 1))"
  note b = spearman_quotient [OF assms, folded q_def]
  have "js_div (Fin (of_int (6 * dSquaredSum (length x) (rank (length x) x) (rank (length x) y))))
          (Fin (of_nat (length x) * (of_nat (length x) * of_nat (length x) - 1)))
        = to_double q"
    using b(3) by (simp add: q_def)
  also have "\<dots> = Fin q"
    using b(1,2) by (intro to_double_small) auto
  finally have div: "js_div (Fin (of_int (6 * dSquaredSum (length x) (rank (length x) x)
          (rank (length x) y)))) (Fin (of_nat (length x) * (of_nat (length x) * of_nat (length x) - 1)))
        = Fin q" .
  have "js_sub (Fin 1) (Fin q) = to_double (1 - q)" by (rule js_sub_Fin)
  also have "\<dots> = Fin (1 - q)"
    using b(1,2) by (intro to_double_small) auto
  finally have sub: "js_sub (Fin 1) (Fin q) = Fin (1 - q)" .
  have n: "(length x = 0) = False" using assms(2) by auto
  have "spearmanCorrelation x y =
          js_sub (Fin 1)
            (js_div (Fin (of_int (6 * dSquaredSum (length x) (rank (length x) x)
                (rank (length x) y))))
              (Fin (of_nat (length x) * (of_nat (length x) * of_nat (length x) - 1))))"
    unfolding spearmanCorrelation_def Let_def
    by (simp only: assms(1) [symmetric] n simp_thms if_False)
  also have "\<dots> = js_sub (Fin 1) (Fin q)" by (simp only: div)
  also have "\<dots> = Fin (1 - q)" by (rule sub)
  finally show ?thesis unfolding q_def .
qed

text \<open>
  With the integers exact, as the model has them, the coefficient is a number between
  \<open>-1\<close> and \<open>1\<close> for all sequences of equal length other than one.
\<close>

lemma spearman_range:
  assumes "length x = length y" and "length x \<noteq> 1"
  shows "\<exists>r. spearmanCorrelation x y = Fin r \<and> - 1 \<le> r \<and> r \<le> 1"
proof (cases "length x = 0")
  case True
  then show ?thesis by (simp add: spearmanCorrelation_def)
next
  case False
  with assms(2) have n2: "2 \<le> length x" by linarith
  note b = spearman_quotient [OF assms(1) n2]
  have "- 1 \<le> 1 - (of_int (6 * dSquaredSum (length x) (rank (length x) x) (rank (length x) y))
                    / (of_nat (length x) * (of_nat (length x) * of_nat (length x) - 1)) :: rat)"
    and "1 - (of_int (6 * dSquaredSum (length x) (rank (length x) x) (rank (length x) y))
                    / (of_nat (length x) * (of_nat (length x) * of_nat (length x) - 1)) :: rat) \<le> 1"
    using b(1,2) by linarith+
  then show ?thesis
    unfolding spearman_formula [OF assms(1) n2] by blast
qed

lemma spearman_empty: "spearmanCorrelation [] [] = Fin 0"
  by (simp add: spearmanCorrelation_def)

lemma spearman_mismatch: "length x \<noteq> length y \<Longrightarrow> spearmanCorrelation x y = Fin 0"
  by (simp add: spearmanCorrelation_def)

lemma spearman_single: "spearmanCorrelation [a] [b] = NaN"
  by (simp add: spearmanCorrelation_def rank_def js_sort_def dSquaredSum_def js_sub_def)

section \<open>Properties of the correlation matrix\<close>

lemma matrix_loop_items:
  "matrix_loop data =
     [matrix_item data 0 1, matrix_item data 0 2, matrix_item data 0 3,
      matrix_item data 1 2, matrix_item data 1 3, matrix_item data 2 3]"
  by (simp add: matrix_loop_def variables_def upt_rec numeral_2_eq_2 numeral_3_eq_3)

lemma matrix_item_sel:
  "var1 (matrix_item data i j) = variables ! i"
  "var2 (matrix_item data i j) = variables ! j"
  "label1 (matrix_item data i j) = labels ! i"
  "label2 (matrix_item data i j) = labels ! j"
  "correlation (matrix_item data i j) =
     parseFloat_toFixed 3 (spearmanCorrelation (column data (variables ! i))
                                                (column data (variables ! j)))"
  "significant (matrix_item data i j) =
     js_ge (js_abs (spearmanCorrelation (column data (variables ! i))
                                        (column data (variables ! j))))
           (Fin (1 / 4))"
  by (simp_all add: matrix_item_def Let_def)

lemma mset_map_sort: "mset (map f (js_sort cmp xs)) = mset (map f xs)"
proof -
  have "image_mset f (mset (js_sort cmp xs)) = image_mset f (mset xs)"
    by (simp only: mset_js_sort)
  then show ?thesis by (simp only: mset_map)
qed

lemma matrix_loop_pairs:
  "map (\<lambda>c. (var1 c, var2 c)) (matrix_loop data) =
     [(''intensity'', ''dependency''), (''intensity'', ''competence''),
      (''intensity'', ''alienation''), (''dependency'', ''competence''),
      (''dependency'', ''alienation''), (''competence'', ''alienation'')]"
  by (simp add: matrix_loop_items matrix_item_sel variables_def)

lemma matrix_loop_unordered:
  "distinct (map (\<lambda>c. {var1 c, var2 c}) (matrix_loop data))"
proof -
  have ne: "variables ! 0 \<noteq> variables ! 1" "variables ! 0 \<noteq> variables ! 2"
    "variables ! 0 \<noteq> variables ! 3" "variables ! 1 \<noteq> variables ! 2"
    "variables ! 1 \<noteq> variables ! 3" "variables ! 2 \<noteq> variables ! 3"
    by (simp_all add: variables_def)
  have "map (\<lambda>c. {var1 c, var2 c}) (matrix_loop data) =
          [{variables ! 0, variables ! 1}, {variables ! 0, variables ! 2},
           {variables ! 0, variables ! 3}, {variables ! 1, variables ! 2},
           {variables ! 1, variables ! 3}, {variables ! 2, variables ! 3}]"
    by (simp add: matrix_loop_items matrix_item_sel)
  then show ?thesis
    using ne by (simp add: doubleton_eq_iff) 
qed

subsection \<open>Sortedness and stability of the sort\<close>

lemma set_js_insort: "set (js_insort cmp x ys) = insert x (set ys)"
  by (metis mset_js_insort set_mset_mset set_mset_add_mset_insert)

lemma sorted_js_insort:
  assumes total: "\<And>a b. a \<in> A \<Longrightarrow> b \<in> A \<Longrightarrow> cmp_le0 (cmp a b) \<or> cmp_le0 (cmp b a)"
    and trans: "\<And>a b c. a \<in> A \<Longrightarrow> b \<in> A \<Longrightarrow> c \<in> A \<Longrightarrow>
                  cmp_le0 (cmp a b) \<Longrightarrow> cmp_le0 (cmp b c) \<Longrightarrow> cmp_le0 (cmp a c)"
    and "x \<in> A" and "set ys \<subseteq> A"
    and "sorted_wrt (\<lambda>a b. cmp_le0 (cmp a b)) ys"
  shows "sorted_wrt (\<lambda>a b. cmp_le0 (cmp a b)) (js_insort cmp x ys)"
  using assms(3-)
proof (induction ys)
  case Nil
  then show ?case by simp
next
  case (Cons y ys)
  show ?case
  proof (cases "cmp_le0 (cmp x y)")
    case True
    have "cmp_le0 (cmp x z)" if "z \<in> set ys" for z
    proof -
      have "cmp_le0 (cmp y z)" using Cons.prems(3) that by simp
      with True show ?thesis using trans [of x y z] Cons.prems(1,2) that by auto
    qed
    with True Cons.prems(3) show ?thesis by simp
  next
    case False
    then have "cmp_le0 (cmp y x)" using total [of x y] Cons.prems(1,2) by auto
    moreover have "sorted_wrt (\<lambda>a b. cmp_le0 (cmp a b)) (js_insort cmp x ys)"
      using Cons by simp
    ultimately show ?thesis
      using False Cons.prems(3) by (auto simp: set_js_insort)
  qed
qed

lemma sorted_js_sort:
  assumes total: "\<And>a b. a \<in> A \<Longrightarrow> b \<in> A \<Longrightarrow> cmp_le0 (cmp a b) \<or> cmp_le0 (cmp b a)"
    and trans: "\<And>a b c. a \<in> A \<Longrightarrow> b \<in> A \<Longrightarrow> c \<in> A \<Longrightarrow>
                  cmp_le0 (cmp a b) \<Longrightarrow> cmp_le0 (cmp b c) \<Longrightarrow> cmp_le0 (cmp a c)"
    and "set xs \<subseteq> A"
  shows "sorted_wrt (\<lambda>a b. cmp_le0 (cmp a b)) (js_sort cmp xs)"
  using assms(3)
proof (induction xs)
  case Nil
  then show ?case by (simp add: js_sort_def)
next
  case (Cons x xs)
  have "sorted_wrt (\<lambda>a b. cmp_le0 (cmp a b)) (js_insort cmp x (js_sort cmp xs))"
  proof (rule sorted_js_insort [where A = A])
    show "x \<in> A" using Cons.prems by simp
    show "set (js_sort cmp xs) \<subseteq> A" using Cons.prems by (simp add: set_js_sort)
    show "sorted_wrt (\<lambda>a b. cmp_le0 (cmp a b)) (js_sort cmp xs)"
      using Cons by simp
  qed (use total trans in blast)+
  then show ?case by (simp add: js_sort_def)
qed

text \<open>Stability: elements that the comparator cannot tell apart keep their order.\<close>

lemma filter_js_insort:
  assumes "\<And>y. y \<in> set ys \<Longrightarrow> key y = key x \<Longrightarrow> cmp_le0 (cmp x y)"
  shows "filter (\<lambda>c. key c = k) (js_insort cmp x ys) =
           (if key x = k then x # filter (\<lambda>c. key c = k) ys else filter (\<lambda>c. key c = k) ys)"
  using assms by (induction ys) auto

lemma js_sort_stable:
  assumes "\<And>a b. key a = key b \<Longrightarrow> cmp_le0 (cmp a b)"
  shows "filter (\<lambda>c. key c = k) (js_sort cmp xs) = filter (\<lambda>c. key c = k) xs"
proof (induction xs)
  case Nil
  then show ?case by (simp add: js_sort_def)
next
  case (Cons x xs)
  have "filter (\<lambda>c. key c = k) (js_insort cmp x (js_sort cmp xs)) =
          (if key x = k then x # filter (\<lambda>c. key c = k) (js_sort cmp xs)
           else filter (\<lambda>c. key c = k) (js_sort cmp xs))"
    by (rule filter_js_insort) (simp add: assms)
  then show ?case using Cons by (simp add: js_sort_def)
qed

subsection \<open>The comparator of the matrix\<close>

lemma cmp_le0_not_lt: "cmp_le0 (js_sub b a) \<Longrightarrow> \<not> js_lt a b"
  by (cases a; cases b) (simp_all add: js_sub_def)

lemma cmp_le0_same: "cmp_le0 (js_sub a a)"
  by (cases a) (simp_all add: js_sub_def)

lemma parseFloat_toFixed_Fin: "\<exists>r'. parseFloat_toFixed d (Fin r) = Fin r'"
  by simp

lemma correlation_kind:
  assumes "i < 4" and "j < 4"
  shows "(length data = 1 \<longrightarrow> correlation (matrix_item data i j) = NaN) \<and>
         (length data \<noteq> 1 \<longrightarrow> (\<exists>r. correlation (matrix_item data i j) = Fin r))"
proof (cases "length data = 1")
  case True
  then obtain d where "data = [d]" by (cases data) auto
  then show ?thesis by (simp add: matrix_item_sel spearman_single column_def)
next
  case False
  then obtain r where "spearmanCorrelation (column data (variables ! i))
                         (column data (variables ! j)) = Fin r"
    using spearman_range [of "column data (variables ! i)"
                             "column data (variables ! j)"]
    by (auto simp: column_def)
  then have "\<exists>r'. correlation (matrix_item data i j) = Fin r'"
    unfolding matrix_item_sel using parseFloat_toFixed_Fin [of 3 r] by (simp only:)
  with False show ?thesis by simp
qed

lemma matrix_loop_kind:
  "(length data = 1 \<longrightarrow> (\<forall>c\<in>set (matrix_loop data). correlation c = NaN)) \<and>
   (length data \<noteq> 1 \<longrightarrow> (\<forall>c\<in>set (matrix_loop data). \<exists>r. correlation c = Fin r))"
  using correlation_kind [of 0 1 data] correlation_kind [of 0 2 data] correlation_kind [of 0 3 data]
    correlation_kind [of 1 2 data] correlation_kind [of 1 3 data] correlation_kind [of 2 3 data]
  by (simp add: matrix_loop_items)

lemma matrix_sorted_cmp:
  "sorted_wrt (\<lambda>a b. cmp_le0 (js_sub (js_abs (correlation b)) (js_abs (correlation a))))
     (calculateCorrelationMatrix data)"
proof (cases "length data = 1")
  case True
  then have nan: "\<forall>c\<in>set (matrix_loop data). correlation c = NaN"
    using matrix_loop_kind by blast
  show ?thesis
    unfolding calculateCorrelationMatrix_def
    by (rule sorted_js_sort [where A = "set (matrix_loop data)"])
       (use nan in \<open>auto simp: js_sub_def\<close>)
next
  case False
  then have fin: "\<forall>c\<in>set (matrix_loop data). \<exists>r. correlation c = Fin r"
    using matrix_loop_kind by blast
  show ?thesis
    unfolding calculateCorrelationMatrix_def
  proof (rule sorted_js_sort [where A = "set (matrix_loop data)"])
    fix a b assume "a \<in> set (matrix_loop data)" "b \<in> set (matrix_loop data)"
    then obtain ra rb where "correlation a = Fin ra" "correlation b = Fin rb"
      using fin by blast
    then show "cmp_le0 (js_sub (js_abs (correlation b)) (js_abs (correlation a))) \<or>
               cmp_le0 (js_sub (js_abs (correlation a)) (js_abs (correlation b)))"
      by (auto simp: js_sub_def)
  next
    fix a b c
    assume "a \<in> set (matrix_loop data)" "b \<in> set (matrix_loop data)" "c \<in> set (matrix_loop data)"
    then obtain ra rb rc where "correlation a = Fin ra" "correlation b = Fin rb" "correlation c = Fin rc"
      using fin by blast
    then show "cmp_le0 (js_sub (js_abs (correlation b)) (js_abs (correlation a))) \<Longrightarrow>
               cmp_le0 (js_sub (js_abs (correlation c)) (js_abs (correlation b))) \<Longrightarrow>
               cmp_le0 (js_sub (js_abs (correlation c)) (js_abs (correlation a)))"
      by (auto simp: js_sub_def)
  qed simp
qed

section \<open>Reversed value order\<close>





section \<open>Properties of the parser\<close>

lemma intensity_parse_line:
  "intensity (parse_line index line) =
     parseFloat_toFixed 2
       (js_div (js_add (js_add (js_add (js_add (getVal (split_fields line) 2)
          (getVal (split_fields line) 4)) (getVal (split_fields line) 5))
          (getVal (split_fields line) 18)) (getVal (split_fields line) 19)) (Fin 5))"
  by (simp add: parse_line_def Let_def)

lemma usageGroup_parse_line:
  "usageGroup (parse_line index line) =
     (if js_ge (getVal (split_fields line) 2) (Fin 4) then ''Heavy User (>6 Jam)''
      else ''Moderate/Light'')"
  by (simp add: parse_line_def Let_def)

text \<open>The result is the list of the parsed data lines without those of intensity \<open>NaN\<close>.\<close>

lemma parsed_rows:
  "map (\<lambda>(index, line). f index line) (zip [0..<length ls] ls) =
   map (\<lambda>i. f i (ls ! i)) [0..<length ls]"
  by (rule nth_equalityI) simp_all

lemma parseCSVData_filter:
  "parseCSVData csvText =
     filter (\<lambda>d. \<not> isNaN (intensity d))
       (map (\<lambda>i. parse_line i (data_lines csvText ! i)) [0..<length (data_lines csvText)])"
  unfolding parseCSVData_def Let_def by (simp only: parsed_rows)

lemma parseCSVData_mem:
  "d \<in> set (parseCSVData csvText) \<longleftrightarrow>
     (\<exists>i<length (data_lines csvText). d = parse_line i (data_lines csvText ! i)) \<and>
     \<not> isNaN (intensity d)"
  unfolding parseCSVData_filter by auto

lemma row_kept_iff:
  assumes "i < length (data_lines csvText)"
  shows "(parse_line i (data_lines csvText ! i) \<in> set (parseCSVData csvText)) =
         (\<not> isNaN (intensity (parse_line i (data_lines csvText ! i))))"
  unfolding parseCSVData_mem using assms by blast

text \<open>A line with too few fields, and a line of white space.\<close>

lemma parseInt_undefined: "parseInt ''undefined'' = NaN"
  by code_simp

lemma getVal_missing: "length vs \<le> idx \<Longrightarrow> getVal vs idx = Fin 0"
  by (simp add: getVal_def parseInt_undefined)

lemma zero_intensity:
  assumes "getVal (split_fields line) 2 = Fin 0" and "getVal (split_fields line) 4 = Fin 0"
    and "getVal (split_fields line) 5 = Fin 0" and "getVal (split_fields line) 18 = Fin 0"
    and "getVal (split_fields line) 19 = Fin 0"
  shows "intensity (parse_line index line) = Fin 0"
  unfolding intensity_parse_line assms by simp

lemma split_fields_no_comma: "CHR '','' \<notin> set line \<Longrightarrow> split_fields line = [line]"
  by (induction line) auto

lemma is_space_not_comma: "is_space c \<Longrightarrow> c \<noteq> CHR '',''"
  by (auto simp: is_space_def)

lemma white_line_intensity:
  assumes "list_all is_space line"
  shows "intensity (parse_line index line) = Fin 0"
proof -
  have "CHR '','' \<notin> set line"
    using assms is_space_not_comma by (auto simp: list_all_iff)
  then have "split_fields line = [line]" by (rule split_fields_no_comma)
  then show ?thesis by (intro zero_intensity) (simp_all add: getVal_missing)
qed

lemma abc_line_intensity: "intensity (parse_line index ''a,b,c'') = Fin 0"
proof -
  have "getVal (split_fields ''a,b,c'') 2 = Fin 0" by code_simp
  moreover have "length (split_fields ''a,b,c'') = 3" by code_simp
  ultimately show ?thesis by (intro zero_intensity) (simp_all add: getVal_missing)
qed

text \<open>A cell of 310 nines reads as an infinity.\<close>

lemma radix_digit_nine: "radix_digit 10 (CHR ''9'') = Some 9"
  by code_simp

lemma parse_digits_nines:
  "parse_digits 10 (Some a) (replicate n (CHR ''9'')) = Some (a * 10 ^ n + (10 ^ n - 1))"
proof (induction n arbitrary: a)
  case 0
  then show ?case by simp
next
  case (Suc n)
  have "parse_digits 10 (Some a) (replicate (Suc n) (CHR ''9''))
          = parse_digits 10 (Some (a * 10 + 9)) (replicate n (CHR ''9''))"
    by (simp add: radix_digit_nine)
  also have "\<dots> = Some ((a * 10 + 9) * 10 ^ n + (10 ^ n - 1))" by (rule Suc.IH)
  finally show ?case by (simp add: algebra_simps)
qed

lemma parse_digits_nines_start:
  "parse_digits 10 None (replicate (Suc n) (CHR ''9'')) = Some (10 ^ Suc n - 1)"
proof -
  have "parse_digits 10 None (replicate (Suc n) (CHR ''9''))
          = parse_digits 10 (Some 9) (replicate n (CHR ''9''))"
    by (simp add: radix_digit_nine)
  then show ?thesis by (simp add: parse_digits_nines algebra_simps)
qed

lemma to_double_huge:
  assumes "2 ^ 1025 \<le> x"
  shows "to_double x = PosInf" and "to_double (- x) = NegInf"
proof -
  have x: "(0::rat) < x" using assms by (rule less_le_trans [rotated]) simp
  have big: "\<not> \<bar>x\<bar> \<le> 2 ^ 53"
  proof -
    have "(2::rat) ^ 53 < 2 ^ 1025" by (rule power_strict_increasing) simp_all
    then show ?thesis using assms x by linarith
  qed
  have "(2::int) ^ 1025 \<le> \<lfloor>x\<rfloor>"
    using assms by (simp add: le_floor_iff)
  then have "1026 \<le> bitlen \<lfloor>\<bar>x\<bar>\<rfloor>"
    using x by (simp add: bitlen_ge_iff_power)
  then have e: "971 < nat (bitlen \<lfloor>\<bar>x\<bar>\<rfloor> - 53)" by simp
  show "to_double x = PosInf"
    using big e x by (simp add: to_double_def Let_def)
  have e': "971 < nat (bitlen \<lfloor>\<bar>- x\<bar>\<rfloor> - 53)" using e by simp
  have big': "\<not> \<bar>- x\<bar> \<le> 2 ^ 53" using big by simp
  show "to_double (- x) = NegInf"
    unfolding to_double_def Let_def using big' e' x by (simp only: if_False if_True simp_thms) simp
qed

lemma parseInt_decimal:
  "parseInt (CHR ''9'' # CHR ''9'' # cs) =
     (case parse_digits 10 None (CHR ''9'' # CHR ''9'' # cs) of
        None \<Rightarrow> NaN | Some m \<Rightarrow> to_double (of_int (1 * m)))"
  "parseInt (CHR ''-'' # CHR ''9'' # CHR ''9'' # cs) =
     (case parse_digits 10 None (CHR ''9'' # CHR ''9'' # cs) of
        None \<Rightarrow> NaN | Some m \<Rightarrow> to_double (of_int (- 1 * m)))"
  by (simp_all add: parseInt_def Let_def is_space_def)

lemma parseInt_nines:
  "parseInt (replicate 310 (CHR ''9'')) = PosInf"
  "parseInt (CHR ''-'' # replicate 310 (CHR ''9'')) = NegInf"
proof -
  have r: "replicate 310 (CHR ''9'') = CHR ''9'' # CHR ''9'' # replicate 308 (CHR ''9'')"
    by (simp add: numeral_eq_Suc)
  have v: "parse_digits 10 None (replicate 310 (CHR ''9'')) = Some (10 ^ 310 - 1)"
    using parse_digits_nines_start [of 309] by simp
  have huge: "(2::rat) ^ 1025 \<le> of_int (10 ^ 310 - 1)"
    by simp
  have "parseInt (replicate 310 (CHR ''9'')) = to_double (of_int (1 * (10 ^ 310 - 1)))"
    using parseInt_decimal(1) [of "replicate 308 (CHR ''9'')"]
    by (simp only: r [symmetric] v option.case)
  then show "parseInt (replicate 310 (CHR ''9'')) = PosInf"
    using to_double_huge(1) [OF huge] by simp
  have "parseInt (CHR ''-'' # replicate 310 (CHR ''9'')) = to_double (of_int (- 1 * (10 ^ 310 - 1)))"
    using parseInt_decimal(2) [of "replicate 308 (CHR ''9'')"]
    by (simp only: r [symmetric] v option.case)
  then show "parseInt (CHR ''-'' # replicate 310 (CHR ''9'')) = NegInf"
    using to_double_huge(2) [OF huge] by simp
qed

lemma id_num_parse_line: "id_num (parse_line index line) = index + 1"
  by (simp add: parse_line_def Let_def)

lemma overflow_lines:
  "data_lines overflow_csv =
     [''1,1,'' @ replicate 310 (CHR ''9'') @ '',1,-'' @ replicate 310 (CHR ''9''),
      ''a,b,c'', ''   '', ''1,1,3'']"
  by code_simp

lemma overflow_fields:
  "split_fields (''1,1,'' @ replicate 310 (CHR ''9'') @ '',1,-'' @ replicate 310 (CHR ''9'')) =
     [''1'', ''1'', replicate 310 (CHR ''9''), ''1'', CHR ''-'' # replicate 310 (CHR ''9'')]"
  by code_simp

lemma overflow_row_nan:
  "isNaN (intensity (parse_line index
     (''1,1,'' @ replicate 310 (CHR ''9'') @ '',1,-'' @ replicate 310 (CHR ''9''))))"
proof -
  have "getVal [''1'', ''1'', replicate 310 (CHR ''9''), ''1'', CHR ''-'' # replicate 310 (CHR ''9'')] 2
          = PosInf"
    by (simp add: getVal_def parseInt_nines)
  moreover have "getVal [''1'', ''1'', replicate 310 (CHR ''9''), ''1'',
                          CHR ''-'' # replicate 310 (CHR ''9'')] 4 = NegInf"
    by (simp add: getVal_def parseInt_nines)
  ultimately show ?thesis
    unfolding intensity_parse_line overflow_fields by simp
qed

lemma overflow_result: "map id_num (parseCSVData overflow_csv) = [2, 3, 4]"
proof -
  have l3: "intensity (parse_line i ''1,1,3'') = Fin (3 / 5)" for i
    unfolding intensity_parse_line by code_simp
  have up: "[0..<4] = [0, 1, 2, 3]" by (simp add: upt_rec)
  have "list_all is_space ''   ''" by (simp add: is_space_def)
  then have l2: "intensity (parse_line i ''   '') = Fin 0" for i
    by (rule white_line_intensity)
  show ?thesis
    unfolding parseCSVData_filter overflow_lines
    using overflow_row_nan l2 l3
    by (simp add: up id_num_parse_line abc_line_intensity)
qed

text \<open>The second copy computes the same records, up to the extra field.\<close>

lemma parse_line_boldness_truncate:
  "DataItem.truncate (parse_line_boldness index line) = parse_line index line"
  by (simp add: parse_line_boldness_def parse_line_def Let_def DataItem.truncate_def)

lemma intensity_truncate: "intensity (DataItem.truncate d) = intensity d"
  by (simp add: DataItem.truncate_def)

lemma parseCSVData_boldness_truncate:
  "map DataItem.truncate (parseCSVData_boldness csvText) = parseCSVData csvText"
proof -
  let ?zs = "zip [0..<length (data_lines csvText)] (data_lines csvText)"
  have "parseCSVData csvText =
          filter (\<lambda>d. \<not> isNaN (intensity d))
            (map DataItem.truncate (map (\<lambda>(index, line). parse_line_boldness index line) ?zs))"
    unfolding parseCSVData_def Let_def
    by (simp add: parse_line_boldness_truncate split_def comp_def)
  also have "\<dots> = map DataItem.truncate
                    (filter ((\<lambda>d. \<not> isNaN (intensity d)) \<circ> DataItem.truncate)
                       (map (\<lambda>(index, line). parse_line_boldness index line) ?zs))"
    by (rule filter_map)
  also have "(\<lambda>d. \<not> isNaN (intensity d)) \<circ> DataItem.truncate =
             (\<lambda>d :: DataItem_boldness. \<not> isNaN (intensity d))"
    by (simp add: fun_eq_iff intensity_truncate)
  finally show ?thesis
    by (simp add: parseCSVData_boldness_def Let_def)
qed

lemma toFixed_significant:
  assumes "js_ge (js_abs v) (Fin (1 / 4))"
  shows "js_ge (js_abs (parseFloat_toFixed 3 v)) (Fin (1 / 4))"
proof (cases v)
  case (Fin r)
  with assms have r: "1 / 4 \<le> \<bar>r\<bar>" by simp
  show ?thesis
  proof (cases "10 ^ 21 \<le> \<bar>r\<bar>")
    case True
    with Fin r show ?thesis by simp
  next
    case False
    have "(250::rat) \<le> \<bar>r\<bar> * 1000 + 1 / 2" using r by simp
    then have fl: "250 \<le> \<lfloor>\<bar>r\<bar> * 1000 + 1 / 2\<rfloor>" by (simp add: le_floor_iff)
    have "r \<noteq> 0" using r by auto
    then have "\<bar>sgn r * of_int \<lfloor>\<bar>r\<bar> * 1000 + 1 / 2\<rfloor> / 1000\<bar>
                 = (of_int \<lfloor>\<bar>r\<bar> * 1000 + 1 / 2\<rfloor> :: rat) / 1000"
      using fl by (simp add: abs_mult abs_sgn_eq)
    moreover have "(1 / 4 :: rat) \<le> of_int \<lfloor>\<bar>r\<bar> * 1000 + 1 / 2\<rfloor> / 1000"
    proof -
      have "(250::rat) \<le> of_int \<lfloor>\<bar>r\<bar> * 1000 + 1 / 2\<rfloor>" using fl by linarith
      then show ?thesis by simp
    qed
    ultimately show ?thesis using Fin False by simp
  qed
qed (use assms in simp_all)

section \<open>The properties of the specification\<close>

text \<open>
  C1. The coefficient returned by \<open>spearmanCorrelation\<close> lies between \<open>-1\<close> and \<open>1\<close>.
  This fails for two sequences of length one, which pass the guard: the result is
  \<open>NaN\<close>, and both \<open>-1 <= rho\<close> and \<open>rho <= 1\<close> are false. (For the other pairs of
  sequences of equal length see lemma \<open>spearman_range\<close>.)
\<close>

theorem C1_single_out_of_range:
  "spearmanCorrelation [Fin 5] [Fin 3] = NaN \<and>
   \<not> js_ge (spearmanCorrelation [Fin 5] [Fin 3]) (Fin (- 1)) \<and>
   \<not> js_ge (Fin 1) (spearmanCorrelation [Fin 5] [Fin 3])"
  by (simp add: spearman_single)

theorem C1_single_out_of_range_witness:
  "isNaN (spearmanCorrelation [Fin 5] [Fin 3])"
  using C1_single_out_of_range by simp



text \<open>
  C3. \<open>spearmanCorrelation\<close> returns \<open>0\<close> for two empty sequences and for sequences of
  different lengths. For two sequences of length one nothing short-circuits: the formula
  is evaluated, its denominator \<open>n * (n * n - 1)\<close> is \<open>0\<close>, and the result of
  \<open>1 - 0 / 0\<close> is \<open>NaN\<close>.
\<close>

theorem C3_degenerate_inputs:
  "spearmanCorrelation [] [] = Fin 0 \<and>
   (length x \<noteq> length y \<longrightarrow> spearmanCorrelation x y = Fin 0) \<and>
   spearmanCorrelation [a] [b] = js_sub (Fin 1) (js_div (Fin 0) (Fin 0)) \<and>
   spearmanCorrelation [a] [b] = NaN"
  by (simp add: spearman_empty spearman_mismatch spearman_single js_sub_def)

theorem C3_degenerate_inputs_witness:
  "length [Fin 1] \<noteq> length [Fin 1, Fin 2] \<and>
   spearmanCorrelation [Fin 1] [Fin 1, Fin 2] = Fin 0 \<and>
   spearmanCorrelation [Fin 7] [Fin 7] = NaN"
  using C3_degenerate_inputs [of "[Fin 1]" "[Fin 1, Fin 2]" "Fin 7" "Fin 7"]
  by (simp add: js_sub_def)

text \<open>
  C4. For every input, empty or not, \<open>calculateCorrelationMatrix\<close> returns six entries,
  one for each of the six pairs of different variables among \<open>intensity\<close>,
  \<open>dependency\<close>, \<open>competence\<close> and \<open>alienation\<close>; the unordered pairs of the entries are
  pairwise different, so no pair occurs in both orders.
\<close>

theorem C4_six_unordered_pairs: 
  "length (calculateCorrelationMatrix data) = 6 \<and>
   mset (map (\<lambda>c. (var1 c, var2 c)) (calculateCorrelationMatrix data)) =
     mset [(''intensity'', ''dependency''), (''intensity'', ''competence''),
           (''intensity'', ''alienation''), (''dependency'', ''competence''),
           (''dependency'', ''alienation''), (''competence'', ''alienation'')] \<and>
   distinct (map (\<lambda>c. {var1 c, var2 c}) (calculateCorrelationMatrix data))"
proof -
  have len: "length (calculateCorrelationMatrix data) = 6"
    by (simp add: calculateCorrelationMatrix_def length_js_sort matrix_loop_items)
  have pairs: "mset (map (\<lambda>c. (var1 c, var2 c)) (calculateCorrelationMatrix data)) =
     mset [(''intensity'', ''dependency''), (''intensity'', ''competence''),
           (''intensity'', ''alienation''), (''dependency'', ''competence''),
           (''dependency'', ''alienation''), (''competence'', ''alienation'')]"
    unfolding calculateCorrelationMatrix_def mset_map_sort matrix_loop_pairs ..
  have "mset (map (\<lambda>c. {var1 c, var2 c}) (calculateCorrelationMatrix data)) =
        mset (map (\<lambda>c. {var1 c, var2 c}) (matrix_loop data))"
    unfolding calculateCorrelationMatrix_def mset_map_sort ..
  then have "distinct (map (\<lambda>c. {var1 c, var2 c}) (calculateCorrelationMatrix data)) =
             distinct (map (\<lambda>c. {var1 c, var2 c}) (matrix_loop data))"
    by (rule mset_eq_imp_distinct_iff)
  then have "distinct (map (\<lambda>c. {var1 c, var2 c}) (calculateCorrelationMatrix data))"
    using matrix_loop_unordered [of data] by (rule iffD2)
  with len pairs show ?thesis by (intro conjI)
qed

theorem C4_six_unordered_pairs_witness:
  "length (calculateCorrelationMatrix survey3) = 6 \<and>
   map (\<lambda>c. (var1 c, var2 c)) (calculateCorrelationMatrix survey3) =
     [(''intensity'', ''competence''), (''intensity'', ''dependency''),
      (''intensity'', ''alienation''), (''dependency'', ''competence''),
      (''dependency'', ''alienation''), (''competence'', ''alienation'')]"
proof -
  have "map (\<lambda>c. (var1 c, var2 c)) (calculateCorrelationMatrix survey3) =
     [(''intensity'', ''competence''), (''intensity'', ''dependency''),
      (''intensity'', ''alienation''), (''dependency'', ''competence''),
      (''dependency'', ''alienation''), (''competence'', ''alienation'')]"
    by code_simp
  then show ?thesis
    using C4_six_unordered_pairs [of survey3] by simp
qed

text \<open>
  C5. For every input the entries returned by \<open>calculateCorrelationMatrix\<close> are sorted by
  descending absolute value of the coefficient: no entry has a smaller absolute value
  than a later one, and the entries that share an absolute value stand in the order in
  which the loops produced them. When the input does not have exactly one record, all
  coefficients are numbers and every entry is \<open>>=\<close> each later one in absolute value;
  for a single record all six coefficients are \<open>NaN\<close> and keep the loop order.
\<close>

theorem C5_sorted_stable:
  "sorted_wrt (\<lambda>a b. \<not> js_lt (js_abs (correlation a)) (js_abs (correlation b)))
     (calculateCorrelationMatrix data) \<and>
   (\<forall>k. filter (\<lambda>c. js_abs (correlation c) = k) (calculateCorrelationMatrix data) =
        filter (\<lambda>c. js_abs (correlation c) = k) (matrix_loop data)) \<and>
   (length data \<noteq> 1 \<longrightarrow>
      sorted_wrt (\<lambda>a b. js_ge (js_abs (correlation a)) (js_abs (correlation b)))
        (calculateCorrelationMatrix data))"
proof (intro conjI allI impI)
  show "sorted_wrt (\<lambda>a b. \<not> js_lt (js_abs (correlation a)) (js_abs (correlation b)))
          (calculateCorrelationMatrix data)"
    using matrix_sorted_cmp [of data]
    by (rule sorted_wrt_mono_rel [rotated]) (simp add: cmp_le0_not_lt)
next
  fix k
  show "filter (\<lambda>c. js_abs (correlation c) = k) (calculateCorrelationMatrix data) =
        filter (\<lambda>c. js_abs (correlation c) = k) (matrix_loop data)"
    unfolding calculateCorrelationMatrix_def
    by (rule js_sort_stable) (simp add: cmp_le0_same)
next
  assume "length data \<noteq> 1"
  then have fin: "\<forall>c\<in>set (matrix_loop data). \<exists>r. correlation c = Fin r"
    using matrix_loop_kind by blast
  have "set (calculateCorrelationMatrix data) = set (matrix_loop data)"
    by (simp add: calculateCorrelationMatrix_def set_js_sort)
  with fin have fin': "\<forall>c\<in>set (calculateCorrelationMatrix data). \<exists>r. correlation c = Fin r"
    by simp
  show "sorted_wrt (\<lambda>a b. js_ge (js_abs (correlation a)) (js_abs (correlation b)))
          (calculateCorrelationMatrix data)"
    using matrix_sorted_cmp [of data]
  proof (rule sorted_wrt_mono_rel [rotated])
    fix a b
    assume "a \<in> set (calculateCorrelationMatrix data)" "b \<in> set (calculateCorrelationMatrix data)"
      and le: "cmp_le0 (js_sub (js_abs (correlation b)) (js_abs (correlation a)))"
    then obtain ra rb where "correlation a = Fin ra" "correlation b = Fin rb"
      using fin' by blast
    with le show "js_ge (js_abs (correlation a)) (js_abs (correlation b))"
      by (simp add: js_sub_def)
  qed
qed

theorem C5_sorted_stable_witness:
  "length survey3 \<noteq> 1 \<and>
   sorted_wrt (\<lambda>a b. js_ge (js_abs (correlation a)) (js_abs (correlation b)))
     (calculateCorrelationMatrix survey3) \<and>
   map correlation (calculateCorrelationMatrix survey3) =
     [Fin (- 1), Fin (1 / 2), Fin (1 / 2), Fin (- 1 / 2), Fin (- 1 / 2), Fin (- 1 / 2)] \<and>
   map correlation (matrix_loop survey3) =
     [Fin (1 / 2), Fin (- 1), Fin (1 / 2), Fin (- 1 / 2), Fin (- 1 / 2), Fin (- 1 / 2)]"
proof -
  have n: "length survey3 \<noteq> 1" by (simp add: survey3_def)
  have "map correlation (calculateCorrelationMatrix survey3) =
     [Fin (- 1), Fin (1 / 2), Fin (1 / 2), Fin (- 1 / 2), Fin (- 1 / 2), Fin (- 1 / 2)]"
    by code_simp
  moreover have "map correlation (matrix_loop survey3) =
     [Fin (1 / 2), Fin (- 1), Fin (1 / 2), Fin (- 1 / 2), Fin (- 1 / 2), Fin (- 1 / 2)]"
    by code_simp
  ultimately show ?thesis
    using C5_sorted_stable [of survey3] n by simp
qed

text \<open>
  C6, as the code has it. Every entry of the result is the entry of one pair
  \<open>i < j\<close> of variables; its \<open>significant\<close> flag is true exactly when the absolute
  value of the coefficient before rounding is at least \<open>0.25\<close> (the value \<open>0.25\<close>
  itself included), its \<open>correlation\<close> is that coefficient rounded to three decimals, and
  a significant entry has a stored coefficient of absolute value at least \<open>0.25\<close>.
\<close>

theorem C6_significant_unrounded:
  assumes "c \<in> set (calculateCorrelationMatrix data)"
  shows "\<exists>i j. i < j \<and> j < 4 \<and> c = matrix_item data i j \<and>
           significant c =
             js_ge (js_abs (spearmanCorrelation (column data (variables ! i))
                                                 (column data (variables ! j)))) (Fin (1 / 4)) \<and>
           correlation c =
             parseFloat_toFixed 3 (spearmanCorrelation (column data (variables ! i))
                                                         (column data (variables ! j))) \<and>
           (significant c \<longrightarrow> js_ge (js_abs (correlation c)) (Fin (1 / 4)))"
proof -
  have "c \<in> set (matrix_loop data)"
    using assms by (simp add: calculateCorrelationMatrix_def set_js_sort)
  then consider "c = matrix_item data 0 1" | "c = matrix_item data 0 2"
    | "c = matrix_item data 0 3" | "c = matrix_item data 1 2"
    | "c = matrix_item data 1 3" | "c = matrix_item data 2 3"
    unfolding matrix_loop_items by auto
  then obtain i j where ij: "i < j" "j < 4" "c = matrix_item data i j"
  proof cases
    case 1 then show ?thesis using that [of 0 1] by simp
  next
    case 2 then show ?thesis using that [of 0 2] by simp
  next
    case 3 then show ?thesis using that [of 0 3] by simp
  next
    case 4 then show ?thesis using that [of 1 2] by simp
  next
    case 5 then show ?thesis using that [of 1 3] by simp
  next
    case 6 then show ?thesis using that [of 2 3] by simp
  qed
  show ?thesis
  proof (intro exI conjI)
    show "i < j" "j < 4" "c = matrix_item data i j" by (fact ij)+
  qed (simp_all add: ij(3) matrix_item_sel toFixed_significant)
qed

theorem C6_significant_unrounded_witness:
  "matrix_item survey3 0 1 \<in> set (calculateCorrelationMatrix survey3) \<and>
   significant (matrix_item survey3 0 1) \<and>
   js_ge (js_abs (correlation (matrix_item survey3 0 1))) (Fin (1 / 4))"
proof -
  have mem: "matrix_item survey3 0 1 \<in> set (calculateCorrelationMatrix survey3)"
    by code_simp
  have sig: "significant (matrix_item survey3 0 1)"
    by code_simp
  from C6_significant_unrounded [OF mem] sig
  have "js_ge (js_abs (correlation (matrix_item survey3 0 1))) (Fin (1 / 4))"
    by blast
  with mem sig show ?thesis by simp
qed

text \<open>
  The converse fails, so the flag is not determined by the stored coefficient: for the
  twenty respondents of \<open>survey20\<close> the coefficient of \<open>intensity\<close> and \<open>dependency\<close> is
  \<open>166 / 665\<close>, about \<open>0.2496\<close>; it is stored as \<open>0.25\<close> and flagged not significant.
\<close>

lemma survey20_matrix:
  "map (\<lambda>c. (var1 c, var2 c, correlation c, significant c))
     (calculateCorrelationMatrix survey20) =
     [(''intensity'', ''competence'', Fin 1, True),
      (''intensity'', ''alienation'', Fin 1, True),
      (''competence'', ''alienation'', Fin 1, True),
      (''intensity'', ''dependency'', Fin (1 / 4), False),
      (''dependency'', ''competence'', Fin (1 / 4), False),
      (''dependency'', ''alienation'', Fin (1 / 4), False)]"
  by code_simp

theorem C6_rounded_threshold_counterexample:
  "var1 (calculateCorrelationMatrix survey20 ! 3) = ''intensity'' \<and>
   var2 (calculateCorrelationMatrix survey20 ! 3) = ''dependency'' \<and>
   correlation (calculateCorrelationMatrix survey20 ! 3) = Fin (1 / 4) \<and>
   js_ge (js_abs (correlation (calculateCorrelationMatrix survey20 ! 3))) (Fin (1 / 4)) \<and>
   \<not> significant (calculateCorrelationMatrix survey20 ! 3)"
proof -
  have len: "3 < length (calculateCorrelationMatrix survey20)"
    by (simp add: calculateCorrelationMatrix_def length_js_sort matrix_loop_items)
  have "map (\<lambda>c. (var1 c, var2 c, correlation c, significant c))
          (calculateCorrelationMatrix survey20) ! 3 =
        (''intensity'', ''dependency'', Fin (1 / 4), False)"
    unfolding survey20_matrix by simp
  then have "(var1 (calculateCorrelationMatrix survey20 ! 3),
              var2 (calculateCorrelationMatrix survey20 ! 3),
              correlation (calculateCorrelationMatrix survey20 ! 3),
              significant (calculateCorrelationMatrix survey20 ! 3)) =
             (''intensity'', ''dependency'', Fin (1 / 4), False)"
    using len by (simp only: nth_map)
  then show ?thesis by simp
qed

text \<open>
  C7. A data line whose columns 2, 4, 5, 18 and 19 all read \<open>5\<close> gives a record of the
  result, and that record has \<open>intensity = 5\<close>, whatever the other columns are. Every
  record of the result is the record of a data line; when column 2 of that line reads
  \<open>3\<close> its usage group is \<open>Moderate/Light\<close>, and when it reads \<open>4\<close> or more its usage
  group is \<open>Heavy User (>6 Jam)\<close>. A column reads what \<open>getVal\<close> returns for it.
\<close>

theorem C7_scores_and_usage_group:
  "(i < length (data_lines csvText) \<and>
    getVal (split_fields (data_lines csvText ! i)) 2 = Fin 5 \<and>
    getVal (split_fields (data_lines csvText ! i)) 4 = Fin 5 \<and>
    getVal (split_fields (data_lines csvText ! i)) 5 = Fin 5 \<and>
    getVal (split_fields (data_lines csvText ! i)) 18 = Fin 5 \<and>
    getVal (split_fields (data_lines csvText ! i)) 19 = Fin 5
      \<longrightarrow> parse_line i (data_lines csvText ! i) \<in> set (parseCSVData csvText) \<and>
          intensity (parse_line i (data_lines csvText ! i)) = Fin 5) \<and>
   (d \<in> set (parseCSVData csvText)
      \<longrightarrow> (\<exists>j<length (data_lines csvText).
             d = parse_line j (data_lines csvText ! j) \<and>
             (getVal (split_fields (data_lines csvText ! j)) 2 = Fin 3
                \<longrightarrow> usageGroup d = ''Moderate/Light'') \<and>
             (js_ge (getVal (split_fields (data_lines csvText ! j)) 2) (Fin 4)
                \<longrightarrow> usageGroup d = ''Heavy User (>6 Jam)'')))"
proof (intro conjI impI)
  assume a: "i < length (data_lines csvText) \<and>
    getVal (split_fields (data_lines csvText ! i)) 2 = Fin 5 \<and>
    getVal (split_fields (data_lines csvText ! i)) 4 = Fin 5 \<and>
    getVal (split_fields (data_lines csvText ! i)) 5 = Fin 5 \<and>
    getVal (split_fields (data_lines csvText ! i)) 18 = Fin 5 \<and>
    getVal (split_fields (data_lines csvText ! i)) 19 = Fin 5"
  have five: "parseFloat_toFixed 2 (js_div (js_add (js_add (js_add (js_add (Fin 5) (Fin 5))
                (Fin 5)) (Fin 5)) (Fin 5)) (Fin 5)) = Fin 5"
    by (simp add: floor_eq_iff)
  show int5: "intensity (parse_line i (data_lines csvText ! i)) = Fin 5"
    unfolding intensity_parse_line using a five by simp
  show "parse_line i (data_lines csvText ! i) \<in> set (parseCSVData csvText)"
    using a int5 by (simp add: row_kept_iff)
next
  assume "d \<in> set (parseCSVData csvText)"
  then obtain j where j: "j < length (data_lines csvText)"
    and d: "d = parse_line j (data_lines csvText ! j)"
    unfolding parseCSVData_mem by blast
  show "\<exists>j<length (data_lines csvText).
             d = parse_line j (data_lines csvText ! j) \<and>
             (getVal (split_fields (data_lines csvText ! j)) 2 = Fin 3
                \<longrightarrow> usageGroup d = ''Moderate/Light'') \<and>
             (js_ge (getVal (split_fields (data_lines csvText ! j)) 2) (Fin 4)
                \<longrightarrow> usageGroup d = ''Heavy User (>6 Jam)'')"
  proof (intro exI conjI)
    show "j < length (data_lines csvText)" by (fact j)
    show "d = parse_line j (data_lines csvText ! j)" by (fact d)
  qed (simp_all add: d usageGroup_parse_line)
qed

theorem C7_scores_and_usage_group_witness:
  "length (data_lines survey_csv) = 3 \<and>
   getVal (split_fields (data_lines survey_csv ! 0)) 2 = Fin 5 \<and>
   getVal (split_fields (data_lines survey_csv ! 0)) 4 = Fin 5 \<and>
   getVal (split_fields (data_lines survey_csv ! 0)) 5 = Fin 5 \<and>
   getVal (split_fields (data_lines survey_csv ! 0)) 18 = Fin 5 \<and>
   getVal (split_fields (data_lines survey_csv ! 0)) 19 = Fin 5 \<and>
   getVal (split_fields (data_lines survey_csv ! 1)) 2 = Fin 3 \<and>
   getVal (split_fields (data_lines survey_csv ! 2)) 2 = Fin 4 \<and>
   parse_line 0 (data_lines survey_csv ! 0) \<in> set (parseCSVData survey_csv) \<and>
   intensity (parse_line 0 (data_lines survey_csv ! 0)) = Fin 5 \<and>
   map id_num (parseCSVData survey_csv) = [1, 2, 3] \<and>
   map usageGroup (parseCSVData survey_csv) =
     [''Heavy User (>6 Jam)'', ''Moderate/Light'', ''Heavy User (>6 Jam)'']"
proof -
  have cols: "length (data_lines survey_csv) = 3 \<and>
     getVal (split_fields (data_lines survey_csv ! 0)) 2 = Fin 5 \<and>
     getVal (split_fields (data_lines survey_csv ! 0)) 4 = Fin 5 \<and>
     getVal (split_fields (data_lines survey_csv ! 0)) 5 = Fin 5 \<and>
     getVal (split_fields (data_lines survey_csv ! 0)) 18 = Fin 5 \<and>
     getVal (split_fields (data_lines survey_csv ! 0)) 19 = Fin 5 \<and>
     getVal (split_fields (data_lines survey_csv ! 1)) 2 = Fin 3 \<and>
     getVal (split_fields (data_lines survey_csv ! 2)) 2 = Fin 4"
    by code_simp
  have recs: "map id_num (parseCSVData survey_csv) = [1, 2, 3] \<and>
     map usageGroup (parseCSVData survey_csv) =
       [''Heavy User (>6 Jam)'', ''Moderate/Light'', ''Heavy User (>6 Jam)'']"
    by code_simp
  from cols have i: "0 < length (data_lines survey_csv)" by simp
  have "parse_line 0 (data_lines survey_csv ! 0) \<in> set (parseCSVData survey_csv) \<and>
        intensity (parse_line 0 (data_lines survey_csv ! 0)) = Fin 5"
    using C7_scores_and_usage_group [of 0 survey_csv] cols i by blast
  with cols recs show ?thesis by blast
qed

text \<open>
  C8, as the code has it. \<open>parseCSVData\<close> returns the records of the data lines, in
  order, without those whose \<open>intensity\<close> is \<open>NaN\<close>: a row is dropped exactly when its
  intensity is not a number. The line \<open>a,b,c\<close> has intensity \<open>0\<close> and is kept; a data
  line that is empty or holds only white space has intensity \<open>0\<close> too, and is kept as
  well.
\<close>

theorem C8_dropped_iff_nan:
  "parseCSVData csvText =
     filter (\<lambda>d. \<not> isNaN (intensity d))
       (map (\<lambda>i. parse_line i (data_lines csvText ! i)) [0..<length (data_lines csvText)]) \<and>
   (i < length (data_lines csvText) \<longrightarrow>
      (parse_line i (data_lines csvText ! i) \<in> set (parseCSVData csvText)) =
      (\<not> isNaN (intensity (parse_line i (data_lines csvText ! i))))) \<and>
   intensity (parse_line index ''a,b,c'') = Fin 0 \<and>
   (list_all is_space line \<longrightarrow> intensity (parse_line index line) = Fin 0)"
  using parseCSVData_filter [of csvText] row_kept_iff [of i csvText]
    abc_line_intensity [of index] white_line_intensity [of line index]
  by blast

text \<open>
  In \<open>overflow_csv\<close> the first data line reads \<open>Infinity\<close> and \<open>-Infinity\<close> in two of
  its intensity columns; their sum is \<open>NaN\<close> and the row is dropped. The line \<open>a,b,c\<close>
  and the line of spaces are kept. White space at the end of a text is removed by
  \<open>trim\<close> before the lines are split.
\<close>

theorem C8_dropped_iff_nan_witness:
  "length (data_lines overflow_csv) = 4 \<and>
   isNaN (intensity (parse_line 0 (data_lines overflow_csv ! 0))) \<and>
   parse_line 0 (data_lines overflow_csv ! 0) \<notin> set (parseCSVData overflow_csv) \<and>
   data_lines overflow_csv ! 2 = ''   '' \<and>
   parse_line 2 (data_lines overflow_csv ! 2) \<in> set (parseCSVData overflow_csv) \<and>
   map id_num (parseCSVData overflow_csv) = [2, 3, 4] \<and>
   data_lines (''h'' @ CHR 0x0A # ''   '') = []"
proof -
  have len: "length (data_lines overflow_csv) = 4" unfolding overflow_lines by simp
  have nan: "isNaN (intensity (parse_line 0 (data_lines overflow_csv ! 0)))"
    unfolding overflow_lines using overflow_row_nan [of 0] by simp
  have sp: "data_lines overflow_csv ! 2 = ''   ''" unfolding overflow_lines by simp
  have ids: "map id_num (parseCSVData overflow_csv) = [2, 3, 4]" by (rule overflow_result)
  have tr: "data_lines (''h'' @ CHR 0x0A # ''   '') = []" by code_simp
  have i0: "0 < length (data_lines overflow_csv)" and i2: "2 < length (data_lines overflow_csv)"
    using len by simp_all
  have "list_all is_space ''   ''" by (simp add: is_space_def)
  then have "intensity (parse_line 2 (data_lines overflow_csv ! 2)) = Fin 0"
    using C8_dropped_iff_nan [of overflow_csv 2 2 "''   ''"] sp by simp
  then have kept: "parse_line 2 (data_lines overflow_csv ! 2) \<in> set (parseCSVData overflow_csv)"
    using C8_dropped_iff_nan [of overflow_csv 2 2 "''   ''"] i2 by simp
  have "parse_line 0 (data_lines overflow_csv ! 0) \<notin> set (parseCSVData overflow_csv)"
    using C8_dropped_iff_nan [of overflow_csv 0 0 "''   ''"] i0 nan by simp
  with len nan sp kept ids tr show ?thesis by blast
qed

text \<open>
  An empty data line is kept: a blank line between the header and the line \<open>a,b,c\<close>
  gives the record with \<open>id = 1\<close>.
\<close>

theorem C8_blank_line_kept_counterexample:
  "parseCSVData (''h'' @ CHR 0x0A # CHR 0x0A # ''a,b,c'') =
     [\<lparr> id_num = 1, intensity = Fin 0, dependency = Fin 0, competence = Fin 0,
         alienation = Fin 0, usageGroup = ''Moderate/Light'' \<rparr>,
      \<lparr> id_num = 2, intensity = Fin 0, dependency = Fin 0, competence = Fin 0,
         alienation = Fin 0, usageGroup = ''Moderate/Light'' \<rparr>]"
  by code_simp

text \<open>
  C9, as the code has it. For an empty sequence of records
  \<open>calculateCorrelationMatrix\<close> returns the six entries, each with coefficient \<open>0\<close> and
  not significant, in loop order. The empty sequence comes from the caller: the dashboard
  calls the function only when there is at least one record and takes \<open>[]\<close> otherwise.
\<close>

theorem C9_empty_records:
  "map (\<lambda>c. (var1 c, var2 c, correlation c, significant c)) (calculateCorrelationMatrix []) =
     [(''intensity'', ''dependency'', Fin 0, False),
      (''intensity'', ''competence'', Fin 0, False),
      (''intensity'', ''alienation'', Fin 0, False),
      (''dependency'', ''competence'', Fin 0, False),
      (''dependency'', ''alienation'', Fin 0, False),
      (''competence'', ''alienation'', Fin 0, False)] \<and>
   correlations [] = []"
proof -
  have "map (\<lambda>c. (var1 c, var2 c, correlation c, significant c))
          (calculateCorrelationMatrix []) =
     [(''intensity'', ''dependency'', Fin 0, False),
      (''intensity'', ''competence'', Fin 0, False),
      (''intensity'', ''alienation'', Fin 0, False),
      (''dependency'', ''competence'', Fin 0, False),
      (''dependency'', ''alienation'', Fin 0, False),
      (''competence'', ''alienation'', Fin 0, False)]"
    by code_simp
  then show ?thesis by (simp add: correlations_def)
qed

theorem C9_empty_records_witness:
  "length (calculateCorrelationMatrix []) = 6 \<and> correlations [] = []"
proof -
  note eq = C9_empty_records [THEN conjunct1]
  have "length (map (\<lambda>c. (var1 c, var2 c, correlation c, significant c))
          (calculateCorrelationMatrix [])) = 6"
    unfolding eq by simp
  then show ?thesis using C9_empty_records [THEN conjunct2] by simp
qed

theorem C9_not_empty_counterexample: "calculateCorrelationMatrix [] \<noteq> []"
proof -
  have "length (calculateCorrelationMatrix []) = 6"
    by (simp add: calculateCorrelationMatrix_def length_js_sort matrix_loop_items)
  then show ?thesis by auto
qed

text \<open>
  C10. \<open>spearmanCorrelation\<close> is symmetric in its two arguments, for sequences of equal
  and of different lengths: the squared rank differences do not depend on the order of
  the subtraction, and both calls compare the same two lengths.
\<close>

theorem C10_spearman_symmetric: "spearmanCorrelation x y = spearmanCorrelation y x"
proof -
  have "dSquaredSum n a b = dSquaredSum n b a" for n a b
    unfolding dSquaredSum_def by (simp add: power2_commute)
  then show ?thesis
    unfolding spearmanCorrelation_def Let_def by auto
qed

theorem C10_spearman_symmetric_witness:
  "spearmanCorrelation [Fin 1, Fin 2, Fin 3] [Fin 3, Fin 1, Fin 2] = Fin (- 1 / 2) \<and>
   spearmanCorrelation [Fin 3, Fin 1, Fin 2] [Fin 1, Fin 2, Fin 3] = Fin (- 1 / 2)"
proof -
  have "spearmanCorrelation [Fin 1, Fin 2, Fin 3] [Fin 3, Fin 1, Fin 2] = Fin (- 1 / 2)"
    by code_simp
  then show ?thesis
    using C10_spearman_symmetric [of "[Fin 1, Fin 2, Fin 3]" "[Fin 3, Fin 1, Fin 2]"] by simp
qed

end
